theory Spec2Isabelle
  imports Main
begin

section \<open>State graph\<close>

text \<open>
  A Python \<open>str\<close> is a sequence of Unicode code points; a character is modelled by its
  code point (\<open>ord\<close>), so \<open>str.isascii\<close> on a one-character string is \<open>c < 128\<close>.
  The graph is a store of \<open>State\<close> objects: an object is identified by its address (the
  index of its cell in the store), which is what the source's \<open>is\<close> compares.
\<close>

type_synonym pychar = nat
type_synonym addr = nat

definition str :: "string \<Rightarrow> pychar list" where
  "str cs = map of_char cs"

text \<open>The subclasses of \<open>State\<close>, with the fields \<open>curr_sym\<close> and \<open>inner\<close>.\<close>

datatype state_class =
    StartState
  | TerminationState
  | DotState
  | AsciiState pychar
  | StarState addr
  | PlusState addr

record state =
  cls :: state_class
  next_states :: "addr list"

type_synonym heap = "state list"

definition state_at :: "heap \<Rightarrow> addr \<Rightarrow> state option" where
  "state_at h a = (if a < length h then Some (h ! a) else None)"

text \<open>\<open>State.__init__\<close>: a fresh object with an empty transition list.\<close>

definition alloc :: "state_class \<Rightarrow> heap \<Rightarrow> addr \<times> heap" where
  "alloc k h = (length h, h @ [\<lparr>cls = k, next_states = []\<rparr>])"

definition set_next :: "addr \<Rightarrow> addr list \<Rightarrow> heap \<Rightarrow> heap" where
  "set_next a ns h = h[a := (h ! a)\<lparr>next_states := ns\<rparr>]"

text \<open>\<open>a.next_states.append(b)\<close>\<close>

definition append_next :: "addr \<Rightarrow> addr \<Rightarrow> heap \<Rightarrow> heap" where
  "append_next a b h = set_next a (next_states (h ! a) @ [b]) h"

text \<open>
  \<open>check_self\<close>, dispatched on the class of the object at the address. The two repeat
  classes forward to \<open>inner\<close>; a chain of \<open>inner\<close> references that never ends gives
  no result (\<open>None\<close>), as does an address outside the store.
\<close>

partial_function (option) check_self :: "heap \<Rightarrow> addr \<Rightarrow> pychar \<Rightarrow> bool option" where
  "check_self h a c =
     (case state_at h a of
        None \<Rightarrow> None
      | Some st \<Rightarrow>
         (case cls st of
            StartState \<Rightarrow> Some False
          | TerminationState \<Rightarrow> Some False
          | DotState \<Rightarrow> Some True
          | AsciiState curr_sym \<Rightarrow> Some (c = curr_sym)
          | StarState inner \<Rightarrow> check_self h inner c
          | PlusState inner \<Rightarrow> check_self h inner c))"

declare check_self.simps [code]

text \<open>
  \<open>StarState.__init__\<close> and \<open>PlusState.__init__\<close> have the same body: allocate, store
  \<open>inner\<close>, append the new object to \<open>inner.next_states\<close>, then set the new object's own
  list to \<open>[inner]\<close>.
\<close>

definition new_repeat :: "(addr \<Rightarrow> state_class) \<Rightarrow> addr \<Rightarrow> heap \<Rightarrow> addr \<times> heap" where
  "new_repeat k inner h =
     (let (self, h1) = alloc (k inner) h;
          h2 = append_next inner self h1;
          h3 = set_next self [inner] h2
      in (self, h3))"

section \<open>Pattern compiler: \<open>RegexFSM.__init__\<close>\<close>

datatype error =
    ValueError pychar nat
  | AttributeError pychar
  | IndexError

text \<open>
  \<open>ValueError c i\<close> stands for the message \<open>Nothing to repeat with 'c' at pos i\<close>,
  \<open>AttributeError c\<close> for \<open>Unsupported character 'c'\<close>. \<open>IndexError\<close> is what
  \<open>pop()\<close> and \<open>[-1]\<close> raise on an empty list.
\<close>

record cstate =
  store :: heap
  states_chain :: "addr list"
  preds :: "addr option list"

definition is_quant :: "pychar \<Rightarrow> bool" where
  "is_quant c = (c = 42 \<or> c = 43)"

text \<open>
  The scan \<open>for idx, nxt in enumerate(parent.next_states[::-1], 1)\<close>: the first entry of
  the reversed list that is \<open>inner\<close> is overwritten, then \<open>break\<close>.
\<close>

fun replace_first :: "addr \<Rightarrow> addr \<Rightarrow> addr list \<Rightarrow> addr list" where
  "replace_first a b [] = []"
| "replace_first a b (x # xs) = (if x = a then b # xs else x # replace_first a b xs)"

definition redirect_last :: "addr \<Rightarrow> addr \<Rightarrow> addr list \<Rightarrow> addr list" where
  "redirect_last inner node ns = rev (replace_first inner node (rev ns))"

text \<open>
  The two branches of \<open>if parent is not None\<close>. In the second, \<open>self.start\<close> is the
  first object allocated, at address 0.
\<close>

definition rewire :: "addr option \<Rightarrow> addr \<Rightarrow> addr \<Rightarrow> heap \<Rightarrow> heap" where
  "rewire parent inner node h =
     (case parent of
        Some p \<Rightarrow> set_next p (redirect_last inner node (next_states (h ! p))) h
      | None \<Rightarrow> set_next 0 (map (\<lambda>x. if x = inner then node else x) (next_states (h ! 0))) h)"

text \<open>The branch \<open>elif c in "*+"\<close> of the loop body.\<close>

definition quantifier :: "pychar \<Rightarrow> nat \<Rightarrow> cstate \<Rightarrow> error + cstate" where
  "quantifier c i \<sigma> =
     (if length (states_chain \<sigma>) < 2 then Inl (ValueError c i)
      else if preds \<sigma> = [] then Inl IndexError
      else
        (let inner = last (states_chain \<sigma>);
             parent = last (preds \<sigma>);
             (node, h1) = new_repeat (if c = 42 then StarState else PlusState) inner (store \<sigma>);
             h2 = rewire parent inner node h1
         in Inr \<lparr>store = h2,
                 states_chain = butlast (states_chain \<sigma>) @ [node],
                 preds = butlast (preds \<sigma>) @ [parent]\<rparr>))"

text \<open>The tail of the loop body, reached with a fresh \<open>DotState\<close> or \<open>AsciiState\<close>.\<close>

definition attach :: "state_class \<Rightarrow> cstate \<Rightarrow> error + cstate" where
  "attach k \<sigma> =
     (let (node, h1) = alloc k (store \<sigma>)
      in if states_chain \<sigma> = [] then Inl IndexError
         else
           (let parent = last (states_chain \<sigma>)
            in Inr \<lparr>store = append_next parent node h1,
                    states_chain = states_chain \<sigma> @ [node],
                    preds = preds \<sigma> @ [Some parent]\<rparr>))"

text \<open>One iteration of \<open>while i < len(regex_expr)\<close> on the character \<open>c = regex_expr[i]\<close>.\<close>

definition body :: "pychar \<Rightarrow> nat \<Rightarrow> cstate \<Rightarrow> error + cstate" where
  "body c i \<sigma> =
     (if c = 46 then attach DotState \<sigma>
      else if c < 128 \<and> \<not> is_quant c then attach (AsciiState c) \<sigma>
      else if is_quant c then quantifier c i \<sigma>
      else Inl (AttributeError c))"

text \<open>The loop, on the characters from position \<open>i\<close> on.\<close>

fun loop :: "pychar list \<Rightarrow> nat \<Rightarrow> cstate \<Rightarrow> error + cstate" where
  "loop [] i \<sigma> = Inr \<sigma>"
| "loop (c # cs) i \<sigma> =
     (case body c i \<sigma> of
        Inl e \<Rightarrow> Inl e
      | Inr \<sigma>' \<Rightarrow> loop cs (i + 1) \<sigma>')"

text \<open>
  The automaton: the store and the two references \<open>self.start\<close> and \<open>self.final\<close>
  (\<open>self.start_state\<close> is a second name of \<open>self.start\<close>).
\<close>

record regex_fsm =
  graph :: heap
  start :: addr
  final :: addr

definition init_cstate :: cstate where
  "init_cstate =
     \<lparr>store = snd (alloc StartState []), states_chain = [fst (alloc StartState [])],
      preds = [None]\<rparr>"

definition finish :: "cstate \<Rightarrow> error + regex_fsm" where
  "finish \<sigma> =
     (let (term, h1) = alloc TerminationState (store \<sigma>)
      in if states_chain \<sigma> = [] then Inl IndexError
         else Inr \<lparr>graph = append_next (last (states_chain \<sigma>)) term h1,
                   start = 0, final = term\<rparr>)"

definition RegexFSM_init :: "pychar list \<Rightarrow> error + regex_fsm" where
  "RegexFSM_init regex_expr =
     (case loop regex_expr 0 init_cstate of
        Inl e \<Rightarrow> Inl e
      | Inr \<sigma> \<Rightarrow> finish \<sigma>)"

section \<open>Matcher: \<open>RegexFSM.check_string\<close>\<close>

text \<open>
  \<open>for nxt in xs: if f(nxt): return True\<close>. \<open>Some True\<close>: the enclosing function
  returned \<open>True\<close>; \<open>Some False\<close>: the loop ran to its end; \<open>None\<close>: a call gave no
  result.
\<close>

fun first_true :: "('a \<Rightarrow> bool option) \<Rightarrow> 'a list \<Rightarrow> bool option" where
  "first_true f [] = Some False"
| "first_true f (x # xs) =
     (case f x of
        None \<Rightarrow> None
      | Some True \<Rightarrow> Some True
      | Some False \<Rightarrow> first_true f xs)"

definition is_repeat :: "state \<Rightarrow> bool" where
  "is_repeat st = (case cls st of StarState _ \<Rightarrow> True | PlusState _ \<Rightarrow> True | _ \<Rightarrow> False)"

text \<open>
  The nested function \<open>dfs\<close>. Its recursion has no measure that decreases (the graph has
  cycles), so the model takes the recursion depth it may use: \<open>None\<close> means the depth was
  exhausted before the call returned (in the interpreter, a \<open>RecursionError\<close>). A search
  that returns a value at some depth returns the same value at every greater depth
  (\<open>dfs_mono\<close> below); a search that returns \<open>None\<close> at every depth does not terminate.
\<close>

fun dfs :: "nat \<Rightarrow> heap \<Rightarrow> pychar list \<Rightarrow> addr \<Rightarrow> nat \<Rightarrow> bool option" where
  "dfs 0 h s a idx = None"
| "dfs (Suc depth) h s a idx =
     (case state_at h a of
        None \<Rightarrow> None
      | Some st \<Rightarrow>
          if cls st = TerminationState then Some (idx = length s)
          else
            (case (if idx < length s
                   then (case check_self h a (s ! idx) of
                           None \<Rightarrow> None
                         | Some True \<Rightarrow>
                             first_true (\<lambda>nxt. dfs depth h s nxt (idx + 1)) (next_states st)
                         | Some False \<Rightarrow> Some False)
                   else Some False) of
               None \<Rightarrow> None
             | Some True \<Rightarrow> Some True
             | Some False \<Rightarrow>
                 if is_repeat st
                 then first_true (\<lambda>nxt. dfs depth h s nxt idx) (next_states st)
                 else Some False))"

definition check_string :: "nat \<Rightarrow> regex_fsm \<Rightarrow> pychar list \<Rightarrow> bool option" where
  "check_string depth fsm s =
     (case state_at (graph fsm) (start fsm) of
        None \<Rightarrow> None
      | Some st \<Rightarrow> first_true (\<lambda>nxt. dfs depth (graph fsm) s nxt 0) (next_states st))"

text \<open>
  The same search with the store passed through every call and returned with the result,
  as the calls happen in the source: each loop continues in the store its last call left,
  and the second loop reads \<open>state.next_states\<close> in the store the first loop left.
  \<open>check_self\<close> only reads. This is the form in which "the call leaves the graph as it
  was" can be stated.
\<close>

fun first_true_st :: "('a \<Rightarrow> heap \<Rightarrow> (bool \<times> heap) option) \<Rightarrow> 'a list \<Rightarrow> heap \<Rightarrow> (bool \<times> heap) option" where
  "first_true_st f [] h = Some (False, h)"
| "first_true_st f (x # xs) h =
     (case f x h of
        None \<Rightarrow> None
      | Some (True, h') \<Rightarrow> Some (True, h')
      | Some (False, h') \<Rightarrow> first_true_st f xs h')"

fun dfs_st :: "nat \<Rightarrow> pychar list \<Rightarrow> addr \<Rightarrow> nat \<Rightarrow> heap \<Rightarrow> (bool \<times> heap) option" where
  "dfs_st 0 s a idx h = None"
| "dfs_st (Suc depth) s a idx h =
     (case state_at h a of
        None \<Rightarrow> None
      | Some st \<Rightarrow>
          if cls st = TerminationState then Some (idx = length s, h)
          else
            (case (if idx < length s
                   then (case check_self h a (s ! idx) of
                           None \<Rightarrow> None
                         | Some True \<Rightarrow>
                             first_true_st (\<lambda>nxt. dfs_st depth s nxt (idx + 1))
                               (next_states st) h
                         | Some False \<Rightarrow> Some (False, h))
                   else Some (False, h)) of
               None \<Rightarrow> None
             | Some (True, h1) \<Rightarrow> Some (True, h1)
             | Some (False, h1) \<Rightarrow>
                 (case state_at h1 a of
                    None \<Rightarrow> None
                  | Some st1 \<Rightarrow>
                      if is_repeat st1
                      then first_true_st (\<lambda>nxt. dfs_st depth s nxt idx) (next_states st1) h1
                      else Some (False, h1))))"

definition check_string_st :: "nat \<Rightarrow> pychar list \<Rightarrow> regex_fsm \<Rightarrow> (bool \<times> regex_fsm) option" where
  "check_string_st depth s fsm =
     (case state_at (graph fsm) (start fsm) of
        None \<Rightarrow> None
      | Some st \<Rightarrow>
          (case first_true_st (\<lambda>nxt. dfs_st depth s nxt 0) (next_states st) (graph fsm) of
             None \<Rightarrow> None
           | Some (b, h') \<Rightarrow> Some (b, fsm\<lparr>graph := h'\<rparr>)))"

text \<open>
  The demonstration harness: \<open>fsm = RegexFSM(pattern); result = fsm.check_string(string)\<close>.
\<close>

definition run_test :: "nat \<Rightarrow> pychar list \<Rightarrow> pychar list \<Rightarrow> error + bool option" where
  "run_test depth pattern string =
     (case RegexFSM_init pattern of
        Inl e \<Rightarrow> Inl e
      | Inr fsm \<Rightarrow> Inr (check_string depth fsm string))"

section \<open>Auxiliary definitions\<close>

text \<open>What the loop keeps true of the two stacks.\<close>

definition tail_ok :: "cstate \<Rightarrow> bool" where
  "tail_ok \<sigma> =
     (states_chain \<sigma> \<noteq> [] \<and> preds \<sigma> \<noteq> [] \<and>
      last (states_chain \<sigma>) < length (store \<sigma>) \<and>
      (2 \<le> length (states_chain \<sigma>) \<longrightarrow>
         (\<exists>p. last (preds \<sigma>) = Some p \<and> p < length (store \<sigma>) \<and>
              p \<noteq> last (states_chain \<sigma>) \<and>
              next_states (store \<sigma> ! p) \<noteq> [] \<and>
              last (next_states (store \<sigma> ! p)) = last (states_chain \<sigma>))))"

text \<open>The store after \<open>StarState(inner)\<close> or \<open>PlusState(inner)\<close>, for the quantifier character \<open>c\<close>.\<close>

definition repeat_store :: "pychar \<Rightarrow> addr \<Rightarrow> heap \<Rightarrow> heap" where
  "repeat_store c inner h =
     set_next (length h) [inner]
       (append_next inner (length h)
          (h @ [\<lparr>cls = (if c = 42 then StarState inner else PlusState inner),
                 next_states = []\<rparr>]))"


text \<open>
  A chain of repeat states, each wrapping the next through \<open>inner\<close>, that ends in a
  \<open>DotState\<close>.
\<close>

fun wraps_dot :: "heap \<Rightarrow> addr list \<Rightarrow> bool" where
  "wraps_dot h [] = False"
| "wraps_dot h [a] = (map_option cls (state_at h a) = Some DotState)"
| "wraps_dot h (a # b # r) =
     ((map_option cls (state_at h a) = Some (StarState b) \<or>
       map_option cls (state_at h a) = Some (PlusState b)) \<and> wraps_dot h (b # r))"

text \<open>
  A run of the search: a list of pairs (state, index) in which every pair follows from
  the one before by one of the two moves of \<open>dfs\<close> (consume the character at the index, or
  leave a repeat state without consuming), and whose last pair is a \<open>TerminationState\<close>
  with the index at the end of the text.
\<close>

fun step_ok :: "heap \<Rightarrow> pychar list \<Rightarrow> addr \<times> nat \<Rightarrow> addr \<times> nat \<Rightarrow> bool" where
  "step_ok h s (a, i) (b, j) =
     (case state_at h a of
        None \<Rightarrow> False
      | Some st \<Rightarrow>
          cls st \<noteq> TerminationState \<and> b \<in> set (next_states st) \<and>
          ((j = i + 1 \<and> i < length s \<and> check_self h a (s ! i) = Some True) \<or>
           (j = i \<and> is_repeat st)))"

fun run_ok :: "heap \<Rightarrow> pychar list \<Rightarrow> (addr \<times> nat) list \<Rightarrow> bool" where
  "run_ok h s [] = False"
| "run_ok h s [(a, i)] =
     (case state_at h a of
        None \<Rightarrow> False
      | Some st \<Rightarrow> cls st = TerminationState \<and> i = length s)"
| "run_ok h s (p # q # r) = (step_ok h s p q \<and> run_ok h s (q # r))"

text \<open>Every \<open>AsciiState\<close> of the store holds an ASCII character that is not reserved.\<close>

definition ascii_ok :: "heap \<Rightarrow> bool" where
  "ascii_ok h = (\<forall>a<length h. \<forall>sym. cls (h ! a) = AsciiState sym \<longrightarrow> sym < 128 \<and> sym \<noteq> 46 \<and> \<not> is_quant sym)"


text \<open>A graph, a pattern and an error with every \<open>PlusState\<close> and every \<open>+\<close> read as the star.\<close>

definition as_star :: "state \<Rightarrow> state" where
  "as_star st = st\<lparr>cls := (case cls st of PlusState inner \<Rightarrow> StarState inner | k \<Rightarrow> k)\<rparr>"

definition star_char :: "pychar \<Rightarrow> pychar" where
  "star_char c = (if c = 43 then 42 else c)"

definition star_cstate :: "cstate \<Rightarrow> cstate" where
  "star_cstate \<sigma> = \<sigma>\<lparr>store := map as_star (store \<sigma>)\<rparr>"

definition star_fsm :: "regex_fsm \<Rightarrow> regex_fsm" where
  "star_fsm fsm = fsm\<lparr>graph := map as_star (graph fsm)\<rparr>"

fun star_error :: "error \<Rightarrow> error" where
  "star_error (ValueError c i) = ValueError (star_char c) i"
| "star_error e = e"





section \<open>More recursion depth never changes a result\<close>

lemma first_true_True:
  "first_true f xs = Some True \<Longrightarrow> \<exists>x\<in>set xs. f x = Some True"
  by (induction xs) (auto split: option.splits bool.splits)

lemma first_true_mono:
  assumes "first_true f xs = Some b"
    and "\<And>x v. x \<in> set xs \<Longrightarrow> f x = Some v \<Longrightarrow> g x = Some v"
  shows "first_true g xs = Some b"
  using assms
proof (induction xs)
  case Nil
  then show ?case by simp
next
  case (Cons x xs)
  show ?case
  proof (cases "f x")
    case None
    with Cons.prems(1) show ?thesis by simp
  next
    case (Some v)
    then have gx: "g x = Some v" using Cons.prems(2) by simp
    show ?thesis
    proof (cases v)
      case True
      with Some gx Cons.prems(1) show ?thesis by simp
    next
      case False
      with Some Cons.prems(1) have "first_true f xs = Some b" by simp
      then have "first_true g xs = Some b"
        using Cons.IH Cons.prems(2) by simp
      with False gx show ?thesis by simp
    qed
  qed
qed

lemma dfs_Suc:
  "dfs d h s a idx = Some b \<Longrightarrow> dfs (Suc d) h s a idx = Some b"
proof (induction d arbitrary: a idx b)
  case 0
  then show ?case by simp
next
  case (Suc d)
  have m: "\<And>xs j v. first_true (\<lambda>nxt. dfs d h s nxt j) xs = Some v
            \<Longrightarrow> first_true (\<lambda>nxt. dfs (Suc d) h s nxt j) xs = Some v"
    by (erule first_true_mono) (rule Suc.IH)
  from Suc.prems show ?case
    apply (subst dfs.simps)
    apply (subst (asm) dfs.simps)
    apply (auto split: option.splits if_splits bool.splits dest: m)
    done
qed

lemma dfs_mono: "dfs d h s a idx = Some b \<Longrightarrow> dfs (d + k) h s a idx = Some b"
  by (induction k) (auto dest: dfs_Suc)

lemma check_string_mono:
  "check_string d fsm s = Some b \<Longrightarrow> check_string (d + k) fsm s = Some b"
  unfolding check_string_def
  by (auto split: option.splits elim!: first_true_mono intro: dfs_mono)

lemma run_test_mono:
  "run_test d p s = Inr (Some b) \<Longrightarrow> run_test (d + k) p s = Inr (Some b)"
  unfolding run_test_def
  by (auto split: sum.splits dest: check_string_mono)

section \<open>The reference runs\<close>

lemma run_a_star_a_1: "run_test 16 (str ''a*a'') (str ''a'') = Inr (Some True)"
  by code_simp

lemma run_a_star_a_2: "run_test 16 (str ''a*a'') (str ''aa'') = Inr (Some True)"
  by code_simp

lemma run_a_star_a_3: "run_test 16 (str ''a*a'') (str ''aaa'') = Inr (Some True)"
  by code_simp

lemma run_mixed_4uhi: "run_test 16 (str ''a*4.+hi'') (str ''4uhi'') = Inr (Some True)"
  by code_simp

lemma run_mixed_meow: "run_test 16 (str ''a*4.+hi'') (str ''meow'') = Inr (Some False)"
  by code_simp

lemma run_m_meow: "run_test 16 (str ''m*..+w'') (str ''meow'') = Inr (Some True)"
  by code_simp

lemma run_m_meovalw: "run_test 16 (str ''m*..+w'') (str ''meovalw'') = Inr (Some True)"
  by code_simp

lemma run_m_eow: "run_test 16 (str ''m*..+w'') (str ''eow'') = Inr (Some True)"
  by code_simp

text \<open>
  C7. The runs of the demonstration harness: the pattern \<open>a*a\<close> accepts \<open>a\<close>, \<open>aa\<close> and
  \<open>aaa\<close>; \<open>a*4.+hi\<close> accepts \<open>4uhi\<close> and rejects \<open>meow\<close>; \<open>m*..+w\<close> accepts \<open>meow\<close>,
  \<open>meovalw\<close> and \<open>eow\<close>. Each search returns within recursion depth 16, and at every
  greater depth.
\<close>

theorem reference_behaviours:
  "run_test (16 + k) (str ''a*a'') (str ''a'') = Inr (Some True) \<and>
   run_test (16 + k) (str ''a*a'') (str ''aa'') = Inr (Some True) \<and>
   run_test (16 + k) (str ''a*a'') (str ''aaa'') = Inr (Some True) \<and>
   run_test (16 + k) (str ''a*4.+hi'') (str ''4uhi'') = Inr (Some True) \<and>
   run_test (16 + k) (str ''a*4.+hi'') (str ''meow'') = Inr (Some False) \<and>
   run_test (16 + k) (str ''m*..+w'') (str ''meow'') = Inr (Some True) \<and>
   run_test (16 + k) (str ''m*..+w'') (str ''meovalw'') = Inr (Some True) \<and>
   run_test (16 + k) (str ''m*..+w'') (str ''eow'') = Inr (Some True)"
  by (intro conjI run_test_mono run_a_star_a_1 run_a_star_a_2 run_a_star_a_3
      run_mixed_4uhi run_mixed_meow run_m_meow run_m_meovalw run_m_eow)

section \<open>The empty pattern\<close>

lemma init_empty:
  "RegexFSM_init [] =
     Inr \<lparr>graph = [\<lparr>cls = StartState, next_states = [1]\<rparr>,
                   \<lparr>cls = TerminationState, next_states = []\<rparr>],
          start = 0, final = 1\<rparr>"
  by (simp add: RegexFSM_init_def init_cstate_def finish_def alloc_def append_next_def
      set_next_def)

text \<open>
  C8. Compiling the empty pattern succeeds; the only transition of the start state leads
  to the termination state, and \<open>check_string\<close> on that graph returns \<open>True\<close> on the empty
  string and \<open>False\<close> on every other string (at every recursion depth from 1 on).
\<close>

theorem empty_pattern:
  "\<exists>fsm. RegexFSM_init [] = Inr fsm \<and>
     cls (graph fsm ! start fsm) = StartState \<and>
     next_states (graph fsm ! start fsm) = [final fsm] \<and>
     cls (graph fsm ! final fsm) = TerminationState \<and>
     (\<forall>s k. check_string (Suc k) fsm s = Some (s = []))"
proof -
  let ?h = "[\<lparr>cls = StartState, next_states = [1]\<rparr>,
             \<lparr>cls = TerminationState, next_states = []\<rparr>]"
  have d: "dfs (Suc k) ?h s 1 0 = Some (s = [])" for k s
    by (simp add: state_at_def)
  have "check_string (Suc k) \<lparr>graph = ?h, start = 0, final = 1\<rparr> s = Some (s = [])" for k s
    unfolding check_string_def using d[of k s] by (cases s) (simp_all add: state_at_def)
  then show ?thesis by (simp add: init_empty)
qed

section \<open>The store and the loop body\<close>


lemma length_set_next: "length (set_next a ns h) = length h"
  by (simp add: set_next_def)

lemma cls_set_next: "cls (set_next a ns h ! b) = cls (h ! b)"
  by (cases "a < length h"; cases "b = a") (simp_all add: set_next_def list_update_beyond)

lemma next_set_next_same: "a < length h \<Longrightarrow> next_states (set_next a ns h ! a) = ns"
  by (simp add: set_next_def)

lemma nth_set_next_other: "b \<noteq> a \<Longrightarrow> set_next a ns h ! b = h ! b"
  by (simp add: set_next_def)

lemma length_append_next: "length (append_next a b h) = length h"
  by (simp add: append_next_def length_set_next)

lemma cls_append_next: "cls (append_next a b h ! x) = cls (h ! x)"
  by (simp add: append_next_def cls_set_next)

lemma next_append_next_same:
  "a < length h \<Longrightarrow> next_states (append_next a b h ! a) = next_states (h ! a) @ [b]"
  by (simp add: append_next_def next_set_next_same)

lemma nth_append_next_other: "x \<noteq> a \<Longrightarrow> append_next a b h ! x = h ! x"
  by (simp add: append_next_def nth_set_next_other)

lemmas store_simps =
  length_set_next cls_set_next next_set_next_same nth_set_next_other
  length_append_next cls_append_next next_append_next_same nth_append_next_other

lemma redirect_last_snoc: "redirect_last i n (xs @ [i]) = xs @ [n]"
  by (simp add: redirect_last_def)

lemma attach_Inr:
  assumes "states_chain \<sigma> \<noteq> []"
  shows "attach k \<sigma> =
     Inr \<lparr>store = append_next (last (states_chain \<sigma>)) (length (store \<sigma>))
                    (store \<sigma> @ [\<lparr>cls = k, next_states = []\<rparr>]),
          states_chain = states_chain \<sigma> @ [length (store \<sigma>)],
          preds = preds \<sigma> @ [Some (last (states_chain \<sigma>))]\<rparr>"
  using assms by (simp add: attach_def alloc_def Let_def)

lemma quantifier_Inr:
  assumes "2 \<le> length (states_chain \<sigma>)" "preds \<sigma> \<noteq> []"
  shows "quantifier c i \<sigma> =
     Inr \<lparr>store = rewire (last (preds \<sigma>)) (last (states_chain \<sigma>)) (length (store \<sigma>))
                    (repeat_store c (last (states_chain \<sigma>)) (store \<sigma>)),
          states_chain = butlast (states_chain \<sigma>) @ [length (store \<sigma>)],
          preds = preds \<sigma>\<rparr>"
  using assms by (simp add: quantifier_def new_repeat_def alloc_def repeat_store_def Let_def)

lemma repeat_store_facts:
  assumes "inner < length h"
  shows "length (repeat_store c inner h) = Suc (length h)"
    and "next_states (repeat_store c inner h ! length h) = [inner]"
    and "cls (repeat_store c inner h ! length h) = (if c = 42 then StarState inner else PlusState inner)"
    and "next_states (repeat_store c inner h ! inner) = next_states (h ! inner) @ [length h]"
    and "\<And>x. x < length h \<Longrightarrow> cls (repeat_store c inner h ! x) = cls (h ! x)"
    and "\<And>x. x < length h \<Longrightarrow> x \<noteq> inner \<Longrightarrow> repeat_store c inner h ! x = h ! x"
  using assms
  by (simp_all add: repeat_store_def store_simps nth_append)


lemma attach_step:
  assumes "tail_ok \<sigma>" "attach k \<sigma> = Inr \<sigma>'"
  shows "length (store \<sigma>') = Suc (length (store \<sigma>))"
    and "states_chain \<sigma>' = states_chain \<sigma> @ [length (store \<sigma>)]"
    and "preds \<sigma>' = preds \<sigma> @ [Some (last (states_chain \<sigma>))]"
    and "store \<sigma>' ! length (store \<sigma>) = \<lparr>cls = k, next_states = []\<rparr>"
    and "next_states (store \<sigma>' ! last (states_chain \<sigma>)) =
           next_states (store \<sigma> ! last (states_chain \<sigma>)) @ [length (store \<sigma>)]"
    and "\<And>x. x < length (store \<sigma>) \<Longrightarrow> cls (store \<sigma>' ! x) = cls (store \<sigma> ! x)"
    and "\<And>x. x < length (store \<sigma>) \<Longrightarrow> x \<noteq> last (states_chain \<sigma>) \<Longrightarrow>
           store \<sigma>' ! x = store \<sigma> ! x"
proof -
  from assms(1) have ne: "states_chain \<sigma> \<noteq> []"
    and lt: "last (states_chain \<sigma>) < length (store \<sigma>)"
    by (simp_all add: tail_ok_def)
  note eq = assms(2)[unfolded attach_Inr[OF ne], simplified]
  from lt show "length (store \<sigma>') = Suc (length (store \<sigma>))"
    by (simp add: eq[symmetric] store_simps)
  show "states_chain \<sigma>' = states_chain \<sigma> @ [length (store \<sigma>)]"
    by (simp add: eq[symmetric])
  show "preds \<sigma>' = preds \<sigma> @ [Some (last (states_chain \<sigma>))]"
    by (simp add: eq[symmetric])
  from lt show "store \<sigma>' ! length (store \<sigma>) = \<lparr>cls = k, next_states = []\<rparr>"
    by (simp add: eq[symmetric] store_simps)
  from lt show "next_states (store \<sigma>' ! last (states_chain \<sigma>)) =
           next_states (store \<sigma> ! last (states_chain \<sigma>)) @ [length (store \<sigma>)]"
    by (simp add: eq[symmetric] store_simps nth_append)
  show "\<And>x. x < length (store \<sigma>) \<Longrightarrow> cls (store \<sigma>' ! x) = cls (store \<sigma> ! x)"
    by (simp add: eq[symmetric] store_simps nth_append)
  show "\<And>x. x < length (store \<sigma>) \<Longrightarrow> x \<noteq> last (states_chain \<sigma>) \<Longrightarrow>
           store \<sigma>' ! x = store \<sigma> ! x"
    by (simp add: eq[symmetric] store_simps nth_append)
qed

lemma quantifier_step:
  assumes "tail_ok \<sigma>" "quantifier c i \<sigma> = Inr \<sigma>'"
  shows "\<exists>p. last (preds \<sigma>) = Some p \<and> p < length (store \<sigma>) \<and>
           p \<noteq> last (states_chain \<sigma>) \<and>
           next_states (store \<sigma> ! p) \<noteq> [] \<and>
           last (next_states (store \<sigma> ! p)) = last (states_chain \<sigma>) \<and>
           next_states (store \<sigma>' ! p) =
             butlast (next_states (store \<sigma> ! p)) @ [length (store \<sigma>)] \<and>
           (\<forall>x < length (store \<sigma>). x \<noteq> last (states_chain \<sigma>) \<longrightarrow> x \<noteq> p \<longrightarrow>
              store \<sigma>' ! x = store \<sigma> ! x)"
    and "length (store \<sigma>') = Suc (length (store \<sigma>))"
    and "states_chain \<sigma>' = butlast (states_chain \<sigma>) @ [length (store \<sigma>)]"
    and "preds \<sigma>' = preds \<sigma>"
    and "cls (store \<sigma>' ! length (store \<sigma>)) =
           (if c = 42 then StarState (last (states_chain \<sigma>))
            else PlusState (last (states_chain \<sigma>)))"
    and "next_states (store \<sigma>' ! length (store \<sigma>)) = [last (states_chain \<sigma>)]"
    and "next_states (store \<sigma>' ! last (states_chain \<sigma>)) =
           next_states (store \<sigma> ! last (states_chain \<sigma>)) @ [length (store \<sigma>)]"
    and "\<And>x. x < length (store \<sigma>) \<Longrightarrow> cls (store \<sigma>' ! x) = cls (store \<sigma> ! x)"
proof -
  let ?h = "store \<sigma>" and ?inner = "last (states_chain \<sigma>)"
  let ?N = "length ?h"
  let ?R = "repeat_store c ?inner ?h"
  from assms(2) have two: "2 \<le> length (states_chain \<sigma>)"
    by (auto simp: quantifier_def split: if_splits)
  from assms(1) have pne: "preds \<sigma> \<noteq> []" and lt: "?inner < ?N"
    by (simp_all add: tail_ok_def)
  from assms(1) two obtain p where p: "last (preds \<sigma>) = Some p" "p < ?N" "p \<noteq> ?inner"
    "next_states (?h ! p) \<noteq> []" "last (next_states (?h ! p)) = ?inner"
    by (auto simp: tail_ok_def)
  note R = repeat_store_facts[OF lt]
  from p have Rp: "?R ! p = ?h ! p" by (simp add: R)
  from p have snoc: "next_states (?h ! p) = butlast (next_states (?h ! p)) @ [?inner]"
    by (metis append_butlast_last_id)
  have redir: "redirect_last ?inner ?N (next_states (?h ! p)) =
                 butlast (next_states (?h ! p)) @ [?N]"
    by (subst snoc) (rule redirect_last_snoc)
  have st: "store \<sigma>' = set_next p (butlast (next_states (?h ! p)) @ [?N]) ?R"
    and ch: "states_chain \<sigma>' = butlast (states_chain \<sigma>) @ [?N]"
    and pr: "preds \<sigma>' = preds \<sigma>"
    using assms(2) unfolding quantifier_Inr[OF two pne]
    by (auto simp: rewire_def p Rp redir)
  from p have pR: "p < length ?R" by (simp add: R)
  show "length (store \<sigma>') = Suc ?N" by (simp add: st store_simps R)
  show "states_chain \<sigma>' = butlast (states_chain \<sigma>) @ [?N]" by (rule ch)
  show "preds \<sigma>' = preds \<sigma>" by (rule pr)
  from p show "cls (store \<sigma>' ! ?N) = (if c = 42 then StarState ?inner else PlusState ?inner)"
    by (simp add: st store_simps R)
  from p show "next_states (store \<sigma>' ! ?N) = [?inner]"
    by (simp add: st store_simps R)
  from p show "next_states (store \<sigma>' ! ?inner) = next_states (?h ! ?inner) @ [?N]"
    by (simp add: st store_simps R)
  show "\<And>x. x < ?N \<Longrightarrow> cls (store \<sigma>' ! x) = cls (?h ! x)"
    by (simp add: st store_simps R)
  have "next_states (store \<sigma>' ! p) = butlast (next_states (?h ! p)) @ [?N]"
    using pR by (simp add: st store_simps)
  moreover have "\<forall>x < ?N. x \<noteq> ?inner \<longrightarrow> x \<noteq> p \<longrightarrow> store \<sigma>' ! x = ?h ! x"
    by (simp add: st store_simps R)
  ultimately show "\<exists>p. last (preds \<sigma>) = Some p \<and> p < ?N \<and> p \<noteq> ?inner \<and>
           next_states (?h ! p) \<noteq> [] \<and> last (next_states (?h ! p)) = ?inner \<and>
           next_states (store \<sigma>' ! p) = butlast (next_states (?h ! p)) @ [?N] \<and>
           (\<forall>x < ?N. x \<noteq> ?inner \<longrightarrow> x \<noteq> p \<longrightarrow> store \<sigma>' ! x = ?h ! x)"
    using p by blast
qed

lemma tail_ok_attach:
  assumes "tail_ok \<sigma>" "attach k \<sigma> = Inr \<sigma>'"
  shows "tail_ok \<sigma>'"
proof -
  note s = attach_step[OF assms]
  from assms(1) have "states_chain \<sigma> \<noteq> []" "last (states_chain \<sigma>) < length (store \<sigma>)"
    by (simp_all add: tail_ok_def)
  then show ?thesis
    unfolding tail_ok_def by (simp add: s)
qed

lemma tail_ok_quantifier:
  assumes "tail_ok \<sigma>" "quantifier c i \<sigma> = Inr \<sigma>'"
  shows "tail_ok \<sigma>'"
proof -
  note s = quantifier_step[OF assms]
  from s(1) obtain p where p: "last (preds \<sigma>) = Some p" "p < length (store \<sigma>)"
    "next_states (store \<sigma>' ! p) = butlast (next_states (store \<sigma> ! p)) @ [length (store \<sigma>)]"
    by blast
  from assms(1) have "preds \<sigma> \<noteq> []" by (simp add: tail_ok_def)
  with p show ?thesis
    unfolding tail_ok_def by (simp add: s(2-4))
qed

lemma tail_ok_body:
  assumes "tail_ok \<sigma>" "body c i \<sigma> = Inr \<sigma>'"
  shows "tail_ok \<sigma>'"
  using assms
  by (auto simp: body_def split: if_splits intro: tail_ok_attach tail_ok_quantifier)

lemma loop_invariant:
  assumes "loop cs i \<sigma> = Inr \<sigma>'" "P \<sigma>"
    and "\<And>c i \<sigma> \<sigma>'. P \<sigma> \<Longrightarrow> body c i \<sigma> = Inr \<sigma>' \<Longrightarrow> P \<sigma>'"
  shows "P \<sigma>'"
  using assms(1,2)
proof (induction cs arbitrary: i \<sigma>)
  case Nil
  then show ?case by simp
next
  case (Cons c cs)
  then show ?case
    by (auto split: sum.splits intro: assms(3))
qed

lemma tail_ok_init: "tail_ok init_cstate"
  by (simp add: tail_ok_def init_cstate_def alloc_def)

lemma tail_ok_loop: "loop cs i \<sigma> = Inr \<sigma>' \<Longrightarrow> tail_ok \<sigma> \<Longrightarrow> tail_ok \<sigma>'"
  by (erule loop_invariant) (auto intro: tail_ok_body)


lemma body_supported:
  assumes "tail_ok \<sigma>" "2 \<le> length (states_chain \<sigma>)" "c < 128"
  shows "\<exists>\<sigma>'. body c i \<sigma> = Inr \<sigma>' \<and> tail_ok \<sigma>' \<and> 2 \<le> length (states_chain \<sigma>')"
proof -
  from assms(1) have ne: "states_chain \<sigma> \<noteq> []" "preds \<sigma> \<noteq> []"
    by (simp_all add: tail_ok_def)
  show ?thesis
  proof (cases "is_quant c")
    case True
    then have b: "body c i \<sigma> = quantifier c i \<sigma>"
      by (auto simp: body_def is_quant_def)
    obtain \<sigma>' where q: "quantifier c i \<sigma> = Inr \<sigma>'"
      using quantifier_Inr[OF assms(2) ne(2)] by blast
    from quantifier_step(3)[OF assms(1) q] ne assms(2)
    have "2 \<le> length (states_chain \<sigma>')" by simp
    with b q tail_ok_quantifier[OF assms(1) q] show ?thesis by simp
  next
    case False
    with assms(3) have "\<exists>k. body c i \<sigma> = attach k \<sigma>"
      by (cases "c = 46") (auto simp: body_def)
    then obtain k where b: "body c i \<sigma> = attach k \<sigma>" by blast
    obtain \<sigma>' where a: "attach k \<sigma> = Inr \<sigma>'"
      using attach_Inr[OF ne(1)] by blast
    from attach_step(2)[OF assms(1) a] assms(2)
    have "2 \<le> length (states_chain \<sigma>')" by simp
    with b a tail_ok_attach[OF assms(1) a] show ?thesis by simp
  qed
qed

lemma body_unsupported: "\<not> c < 128 \<Longrightarrow> body c i \<sigma> = Inl (AttributeError c)"
  by (auto simp: body_def is_quant_def)

lemma loop_from_two:
  assumes "tail_ok \<sigma>" "2 \<le> length (states_chain \<sigma>)"
  shows "case loop cs i \<sigma> of
           Inl e \<Rightarrow> (\<exists>x\<in>set cs. \<not> x < 128) \<and>
                    e = AttributeError (hd (dropWhile (\<lambda>x. x < 128) cs))
         | Inr \<sigma>' \<Rightarrow> (\<forall>x\<in>set cs. x < 128) \<and> tail_ok \<sigma>' \<and> 2 \<le> length (states_chain \<sigma>')"
  using assms
proof (induction cs arbitrary: i \<sigma>)
  case Nil
  then show ?case by simp
next
  case (Cons c cs)
  show ?case
  proof (cases "c < 128")
    case True
    from body_supported[OF Cons.prems True, of i] obtain \<sigma>1
      where s1: "body c i \<sigma> = Inr \<sigma>1" "tail_ok \<sigma>1" "2 \<le> length (states_chain \<sigma>1)"
      by blast
    from Cons.IH[OF s1(2,3), of "i + 1"] s1(1) True show ?thesis
      by (auto split: sum.splits)
  next
    case False
    then show ?thesis by (simp add: body_unsupported)
  qed
qed

lemma finish_Inr: "states_chain \<sigma> \<noteq> [] \<Longrightarrow> \<exists>fsm. finish \<sigma> = Inr fsm"
  by (simp add: finish_def alloc_def)

lemma init_quantifier:
  assumes "is_quant c"
  shows "RegexFSM_init (c # cs) = Inl (ValueError c 0)"
proof -
  from assms have "body c 0 init_cstate = quantifier c 0 init_cstate"
    by (auto simp: body_def is_quant_def)
  also have "\<dots> = Inl (ValueError c 0)"
    by (simp add: quantifier_def init_cstate_def)
  finally show ?thesis by (simp add: RegexFSM_init_def)
qed

lemma init_no_quantifier:
  assumes "pat = [] \<or> \<not> is_quant (hd pat)"
  shows "case RegexFSM_init pat of
           Inl e \<Rightarrow> (\<exists>x\<in>set pat. \<not> x < 128) \<and>
                    e = AttributeError (hd (dropWhile (\<lambda>x. x < 128) pat))
         | Inr fsm \<Rightarrow> (\<forall>x\<in>set pat. x < 128)"
proof (cases pat)
  case Nil
  then show ?thesis by (simp add: init_empty)
next
  case (Cons c cs)
  with assms have nq: "\<not> is_quant c" by simp
  show ?thesis
  proof (cases "c < 128")
    case False
    then show ?thesis
      by (simp add: Cons RegexFSM_init_def body_unsupported)
  next
    case True
    with nq have "\<exists>k. body c 0 init_cstate = attach k init_cstate"
      by (cases "c = 46") (auto simp: body_def)
    then obtain k where b: "body c 0 init_cstate = attach k init_cstate" by blast
    have ne: "states_chain init_cstate \<noteq> []" by (simp add: init_cstate_def)
    obtain \<sigma>1 where a: "attach k init_cstate = Inr \<sigma>1"
      using attach_Inr[OF ne] by blast
    have t1: "tail_ok \<sigma>1" by (rule tail_ok_attach[OF tail_ok_init a])
    have l1: "2 \<le> length (states_chain \<sigma>1)"
      using attach_step(2)[OF tail_ok_init a] by (simp add: init_cstate_def)
    have R: "RegexFSM_init pat = (case loop cs 1 \<sigma>1 of Inl e \<Rightarrow> Inl e | Inr \<sigma> \<Rightarrow> finish \<sigma>)"
      by (simp add: RegexFSM_init_def Cons b a)
    show ?thesis
    proof (cases "loop cs 1 \<sigma>1")
      case (Inl e)
      with loop_from_two[OF t1 l1, of cs 1]
      have "(\<exists>x\<in>set cs. \<not> x < 128)" "e = AttributeError (hd (dropWhile (\<lambda>x. x < 128) cs))"
        by simp_all
      with Inl True show ?thesis unfolding Cons by (simp add: R[unfolded Cons])
    next
      case (Inr \<sigma>')
      with loop_from_two[OF t1 l1, of cs 1]
      have all: "\<forall>x\<in>set cs. x < 128" and "tail_ok \<sigma>'" by simp_all
      then have "states_chain \<sigma>' \<noteq> []" by (simp add: tail_ok_def)
      from finish_Inr[OF this] obtain fsm where "finish \<sigma>' = Inr fsm" by blast
      with Inr all True show ?thesis unfolding Cons by (simp add: R[unfolded Cons])
    qed
  qed
qed



lemma finish_step:
  assumes "tail_ok \<sigma>" "finish \<sigma> = Inr fsm"
  shows "length (graph fsm) = Suc (length (store \<sigma>))"
    and "start fsm = 0" and "final fsm = length (store \<sigma>)"
    and "graph fsm ! length (store \<sigma>) = \<lparr>cls = TerminationState, next_states = []\<rparr>"
    and "next_states (graph fsm ! last (states_chain \<sigma>)) =
           next_states (store \<sigma> ! last (states_chain \<sigma>)) @ [length (store \<sigma>)]"
    and "\<And>x. x < length (store \<sigma>) \<Longrightarrow> cls (graph fsm ! x) = cls (store \<sigma> ! x)"
    and "\<And>x. x < length (store \<sigma>) \<Longrightarrow> x \<noteq> last (states_chain \<sigma>) \<Longrightarrow>
           graph fsm ! x = store \<sigma> ! x"
proof -
  from assms(1) have ne: "states_chain \<sigma> \<noteq> []"
    and lt: "last (states_chain \<sigma>) < length (store \<sigma>)"
    by (simp_all add: tail_ok_def)
  from assms(2) ne have eq: "fsm = \<lparr>graph = append_next (last (states_chain \<sigma>)) (length (store \<sigma>))
       (store \<sigma> @ [\<lparr>cls = TerminationState, next_states = []\<rparr>]), start = 0, final = length (store \<sigma>)\<rparr>"
    by (simp add: finish_def alloc_def)
  from lt show "length (graph fsm) = Suc (length (store \<sigma>))"
    by (simp add: eq store_simps)
  show "start fsm = 0" "final fsm = length (store \<sigma>)" by (simp_all add: eq)
  from lt show "graph fsm ! length (store \<sigma>) = \<lparr>cls = TerminationState, next_states = []\<rparr>"
    by (simp add: eq store_simps)
  from lt show "next_states (graph fsm ! last (states_chain \<sigma>)) =
           next_states (store \<sigma> ! last (states_chain \<sigma>)) @ [length (store \<sigma>)]"
    by (simp add: eq store_simps nth_append)
  show "\<And>x. x < length (store \<sigma>) \<Longrightarrow> cls (graph fsm ! x) = cls (store \<sigma> ! x)"
    by (simp add: eq store_simps nth_append)
  show "\<And>x. x < length (store \<sigma>) \<Longrightarrow> x \<noteq> last (states_chain \<sigma>) \<Longrightarrow>
           graph fsm ! x = store \<sigma> ! x"
    by (simp add: eq store_simps nth_append)
qed

lemma init_Inr_loop:
  assumes "RegexFSM_init pat = Inr fsm"
  obtains \<sigma> where "loop pat 0 init_cstate = Inr \<sigma>" "finish \<sigma> = Inr fsm" "tail_ok \<sigma>"
  using assms tail_ok_loop[OF _ tail_ok_init]
  by (auto simp: RegexFSM_init_def split: sum.splits)

section \<open>The two compile-time errors\<close>

text \<open>
  C5. \<open>RegexFSM("...")\<close> raises the \<open>ValueError\<close> "Nothing to repeat" exactly when the
  pattern begins with a quantifier character (the only moment at which the chain holds
  fewer than two entries); the error then carries that character and the position 0.
  In particular the patterns \<open>*a\<close>, \<open>*\<close> and \<open>+\<close> raise it.
\<close>

theorem dangling_quantifier:
  "(RegexFSM_init pat = Inl (ValueError c i)) =
     (pat \<noteq> [] \<and> is_quant (hd pat) \<and> c = hd pat \<and> i = 0) \<and>
   RegexFSM_init (str ''*a'') = Inl (ValueError 42 0) \<and>
   RegexFSM_init (str ''*'') = Inl (ValueError 42 0) \<and>
   RegexFSM_init (str ''+'') = Inl (ValueError 43 0)"
proof -
  have "(RegexFSM_init pat = Inl (ValueError c i)) =
     (pat \<noteq> [] \<and> is_quant (hd pat) \<and> c = hd pat \<and> i = 0)"
  proof (cases "pat \<noteq> [] \<and> is_quant (hd pat)")
    case True
    then obtain x xs where "pat = x # xs" "is_quant x" by (cases pat) auto
    then show ?thesis using init_quantifier[of x xs] by auto
  next
    case False
    then have "pat = [] \<or> \<not> is_quant (hd pat)" by blast
    from init_no_quantifier[OF this] False show ?thesis
      by (auto split: sum.splits)
  qed
  moreover have "RegexFSM_init (str ''*a'') = Inl (ValueError 42 0)"
    "RegexFSM_init (str ''*'') = Inl (ValueError 42 0)"
    "RegexFSM_init (str ''+'') = Inl (ValueError 43 0)"
    by (simp_all add: str_def init_quantifier is_quant_def)
  ultimately show ?thesis by blast
qed

text \<open>
  The pattern \<open>*\<close> followed by the character U+00E9 holds a character outside the
  alphabet, and compiling it raises the \<open>ValueError\<close> of the leading quantifier, not the
  \<open>AttributeError\<close>.
\<close>

theorem unsupported_symbol_counterexample:
  "\<not> ((\<exists>c. RegexFSM_init [42, 233] = Inl (AttributeError c)) \<longleftrightarrow>
       (\<exists>c\<in>set [42, 233]. \<not> (c = 46 \<or> is_quant c \<or> c < 128)))"
  by (simp add: init_quantifier is_quant_def)

text \<open>
  C6, amended. \<open>RegexFSM("...")\<close> raises the \<open>AttributeError\<close> "Unsupported character"
  exactly when the pattern does not begin with a quantifier character and holds a
  character that is not ASCII (code point 128 or more); the error carries the first such
  character. The wildcard, the two quantifier characters and every other ASCII character
  are accepted.
\<close>

theorem unsupported_symbol:
  "(RegexFSM_init pat = Inl (AttributeError c)) =
     ((pat = [] \<or> \<not> is_quant (hd pat)) \<and>
      (\<exists>pre post. pat = pre @ c # post \<and> (\<forall>x\<in>set pre. x < 128) \<and> \<not> c < 128))"
proof (cases "pat \<noteq> [] \<and> is_quant (hd pat)")
  case True
  then obtain x xs where "pat = x # xs" "is_quant x" by (cases pat) auto
  then show ?thesis using init_quantifier[of x xs] by auto
next
  case False
  then have nq: "pat = [] \<or> \<not> is_quant (hd pat)" by blast
  let ?P = "\<lambda>x::nat. x < 128"
  have split: "(\<exists>pre post. pat = pre @ c # post \<and> (\<forall>x\<in>set pre. ?P x) \<and> \<not> ?P c) =
                ((\<exists>x\<in>set pat. \<not> ?P x) \<and> c = hd (dropWhile ?P pat))"
  proof
    assume "\<exists>pre post. pat = pre @ c # post \<and> (\<forall>x\<in>set pre. ?P x) \<and> \<not> ?P c"
    then obtain pre post where d: "pat = pre @ c # post" "\<forall>x\<in>set pre. ?P x" "\<not> ?P c"
      by blast
    then have "dropWhile ?P pat = c # post"
      by (simp add: dropWhile_append3)
    with d show "(\<exists>x\<in>set pat. \<not> ?P x) \<and> c = hd (dropWhile ?P pat)" by auto
  next
    assume a: "(\<exists>x\<in>set pat. \<not> ?P x) \<and> c = hd (dropWhile ?P pat)"
    then have ne: "dropWhile ?P pat \<noteq> []" by (auto simp: dropWhile_eq_Nil_conv)
    then have c: "dropWhile ?P pat = c # tl (dropWhile ?P pat)" using a by (cases "dropWhile ?P pat") auto
    have "pat = takeWhile ?P pat @ c # tl (dropWhile ?P pat)"
      by (metis c takeWhile_dropWhile_id)
    moreover have "\<forall>x\<in>set (takeWhile ?P pat). ?P x" by (auto dest: set_takeWhileD)
    moreover have "\<not> ?P c" using ne a hd_dropWhile by metis
    ultimately show "\<exists>pre post. pat = pre @ c # post \<and> (\<forall>x\<in>set pre. ?P x) \<and> \<not> ?P c"
      by blast
  qed
  from init_no_quantifier[OF nq] nq show ?thesis
    unfolding split by (auto split: sum.splits)
qed

theorem unsupported_symbol_witness:
  "RegexFSM_init [97, 233, 42] = Inl (AttributeError 233)"
proof -
  have "[97, 233, 42] = [97] @ 233 # [42::nat] \<and> (\<forall>x\<in>set [97::nat]. x < 128) \<and> \<not> (233::nat) < 128"
    by simp
  then have "\<exists>pre post. [97, 233, 42] = pre @ (233::nat) # post \<and> (\<forall>x\<in>set pre. x < 128) \<and> \<not> (233::nat) < 128"
    by blast
  then show ?thesis
    using unsupported_symbol[of "[97, 233, 42]" 233] by (simp add: is_quant_def)
qed

section \<open>Quantifier rewiring\<close>

text \<open>
  C3. When the loop, having read a prefix of the pattern, processes a quantifier
  character, the unit \<open>inner\<close> on top of the chain is wrapped by a new repeat state
  \<open>node\<close>: (a) \<open>inner\<close>'s transition list is the old one followed by \<open>node\<close>; (b) the
  recorded parent is another, older state whose last transition was \<open>inner\<close>, and that
  entry now is \<open>node\<close>; (c) the transition list of \<open>node\<close> is \<open>[inner]\<close>. \<open>node\<close> is the
  new top of the chain, of class \<open>StarState\<close> for \<open>*\<close> and \<open>PlusState\<close> for \<open>+\<close>.
\<close>

theorem quantifier_rewiring:
  assumes "loop pre 0 init_cstate = Inr \<sigma>" and "is_quant c" and "body c i \<sigma> = Inr \<sigma>'"
  shows "\<exists>inner parent node.
     inner = last (states_chain \<sigma>) \<and> last (preds \<sigma>) = Some parent \<and>
     node = length (store \<sigma>) \<and> inner < node \<and> parent < node \<and> parent \<noteq> inner \<and>
     last (states_chain \<sigma>') = node \<and>
     cls (store \<sigma>' ! node) = (if c = 42 then StarState inner else PlusState inner) \<and>
     next_states (store \<sigma>' ! inner) = next_states (store \<sigma> ! inner) @ [node] \<and>
     next_states (store \<sigma> ! parent) \<noteq> [] \<and>
     last (next_states (store \<sigma> ! parent)) = inner \<and>
     next_states (store \<sigma>' ! parent) = butlast (next_states (store \<sigma> ! parent)) @ [node] \<and>
     next_states (store \<sigma>' ! node) = [inner]"
proof -
  have t: "tail_ok \<sigma>" by (rule tail_ok_loop[OF assms(1) tail_ok_init])
  from assms(2,3) have q: "quantifier c i \<sigma> = Inr \<sigma>'"
    by (auto simp: body_def is_quant_def)
  note s = quantifier_step[OF t q]
  from t have "last (states_chain \<sigma>) < length (store \<sigma>)" by (simp add: tail_ok_def)
  with s(1) show ?thesis
    by (auto simp: s(3,5,6,7))
qed

lemma loop_a: "loop (str ''a'') 0 init_cstate = 
  Inr \<lparr>store = [\<lparr>cls = StartState, next_states = [1]\<rparr>, \<lparr>cls = AsciiState 97, next_states = []\<rparr>],
   states_chain = [0, 1], preds = [None, Some 0]\<rparr>"
  by (simp add: str_def init_cstate_def body_def attach_def alloc_def append_next_def set_next_def is_quant_def)

theorem quantifier_rewiring_witness:
  "\<exists>\<sigma> \<sigma>'. loop (str ''a'') 0 init_cstate = Inr \<sigma> \<and> is_quant 42 \<and> body 42 1 \<sigma> = Inr \<sigma>' \<and>
     (\<exists>inner parent node.
     inner = last (states_chain \<sigma>) \<and> last (preds \<sigma>) = Some parent \<and>
     node = length (store \<sigma>) \<and> inner < node \<and> parent < node \<and> parent \<noteq> inner \<and>
     last (states_chain \<sigma>') = node \<and>
     cls (store \<sigma>' ! node) = (if (42::nat) = 42 then StarState inner else PlusState inner) \<and>
     next_states (store \<sigma>' ! inner) = next_states (store \<sigma> ! inner) @ [node] \<and>
     next_states (store \<sigma> ! parent) \<noteq> [] \<and>
     last (next_states (store \<sigma> ! parent)) = inner \<and>
     next_states (store \<sigma>' ! parent) = butlast (next_states (store \<sigma> ! parent)) @ [node] \<and>
     next_states (store \<sigma>' ! node) = [inner])"
proof -
  let ?s = "\<lparr>store = [\<lparr>cls = StartState, next_states = [1]\<rparr>, \<lparr>cls = AsciiState 97, next_states = []\<rparr>],
   states_chain = [0, 1], preds = [None, Some 0]\<rparr>"
  have q: "is_quant 42" by (simp add: is_quant_def)
  have "\<exists>s'. body 42 1 ?s = Inr s'"
    by (simp add: body_def is_quant_def quantifier_def new_repeat_def alloc_def Let_def)
  then obtain s' where b: "body 42 1 ?s = Inr s'" by blast
  from quantifier_rewiring[OF loop_a q b] loop_a q b show ?thesis by blast
qed

section \<open>Full match\<close>

lemma dfs_termination_state:
  "state_at h a = Some st \<Longrightarrow> cls st = TerminationState \<Longrightarrow>
     dfs (Suc d) h s a idx = Some (idx = length s)"
  by simp

lemma dfs_run: "dfs d h s a i = Some True \<Longrightarrow> \<exists>r. run_ok h s ((a, i) # r)"
proof (induction d arbitrary: a i)
  case 0
  then show ?case by simp
next
  case (Suc d)
  from Suc.prems obtain st where st: "state_at h a = Some st"
    by (auto split: option.splits)
  show ?case
  proof (cases "cls st = TerminationState")
    case True
    with Suc.prems st have "i = length s" by simp
    with st True have "run_ok h s [(a, i)]" by simp
    then show ?thesis by blast
  next
    case False
    let ?consume = "i < length s \<and> check_self h a (s ! i) = Some True \<and>
        first_true (\<lambda>nxt. dfs d h s nxt (i + 1)) (next_states st) = Some True"
    let ?skip = "is_repeat st \<and>
        first_true (\<lambda>nxt. dfs d h s nxt i) (next_states st) = Some True"
    from Suc.prems st False have "?consume \<or> ?skip"
      by (auto split: option.splits if_splits bool.splits)
    then show ?thesis
    proof
      assume c: ?consume
      then obtain n where n: "n \<in> set (next_states st)" "dfs d h s n (i + 1) = Some True"
        using first_true_True by fastforce
      from Suc.IH[OF n(2)] obtain r where "run_ok h s ((n, i + 1) # r)" by blast
      with c n(1) st False have "run_ok h s ((a, i) # (n, i + 1) # r)" by simp
      then show ?thesis by blast
    next
      assume c: ?skip
      then obtain n where n: "n \<in> set (next_states st)" "dfs d h s n i = Some True"
        using first_true_True by fastforce
      from Suc.IH[OF n(2)] obtain r where "run_ok h s ((n, i) # r)" by blast
      with c n(1) st False have "run_ok h s ((a, i) # (n, i) # r)" by simp
      then show ?thesis by blast
    qed
  qed
qed

lemma check_string_run:
  assumes "check_string d fsm s = Some True"
  shows "\<exists>st nxt r. state_at (graph fsm) (start fsm) = Some st \<and> nxt \<in> set (next_states st) \<and>
           run_ok (graph fsm) s ((nxt, 0) # r)"
proof -
  from assms obtain st where st: "state_at (graph fsm) (start fsm) = Some st"
    and f: "first_true (\<lambda>nxt. dfs d (graph fsm) s nxt 0) (next_states st) = Some True"
    by (auto simp: check_string_def split: option.splits)
  from first_true_True[OF f] obtain n where n: "n \<in> set (next_states st)"
    "dfs d (graph fsm) s n 0 = Some True" by blast
  from dfs_run[OF n(2)] st n(1) show ?thesis by blast
qed

lemma init_a:
  "RegexFSM_init (str ''a'') =
     Inr \<lparr>graph = [\<lparr>cls = StartState, next_states = [1]\<rparr>,
                   \<lparr>cls = AsciiState 97, next_states = [2]\<rparr>,
                   \<lparr>cls = TerminationState, next_states = []\<rparr>],
          start = 0, final = 2\<rparr>"
  by (simp add: str_def RegexFSM_init_def init_cstate_def finish_def alloc_def append_next_def
      set_next_def body_def attach_def is_quant_def Let_def)

lemma check_string_a:
  "check_string (Suc (Suc k))
     \<lparr>graph = [\<lparr>cls = StartState, next_states = [1]\<rparr>,
               \<lparr>cls = AsciiState 97, next_states = [2]\<rparr>,
               \<lparr>cls = TerminationState, next_states = []\<rparr>],
      start = 0, final = 2\<rparr> t = Some (t = [97])"
proof -
  define h where "h = [\<lparr>cls = StartState, next_states = [1]\<rparr>,
             \<lparr>cls = AsciiState 97, next_states = [2]\<rparr>,
             \<lparr>cls = TerminationState, next_states = []\<rparr>]"
  have s0: "state_at h 0 = Some \<lparr>cls = StartState, next_states = [1]\<rparr>"
    and s1: "state_at h (Suc 0) = Some \<lparr>cls = AsciiState 97, next_states = [2]\<rparr>"
    and s2: "state_at h 2 = Some \<lparr>cls = TerminationState, next_states = []\<rparr>"
    by (simp_all add: h_def state_at_def)
  have cs: "check_self h (Suc 0) c = Some (c = 97)" for c
    by (subst check_self.simps) (simp add: s1)
  have t2: "dfs (Suc k) h t 2 i = Some (i = length t)" for i
    by (simp add: s2)
  have d: "dfs (Suc (Suc k)) h t (Suc 0) 0 = Some (t = [97])"
  proof (cases t)
    case Nil
    then show ?thesis by (simp add: s1 is_repeat_def)
  next
    case (Cons x xs)
    show ?thesis
    proof (cases "x = 97")
      case True
      show ?thesis
        by (cases xs) (simp_all add: s1 s2 cs Cons True is_repeat_def)
    next
      case False
      then show ?thesis
        by (simp add: s1 cs Cons is_repeat_def)
    qed
  qed
  have "check_string (Suc (Suc k)) \<lparr>graph = h, start = 0, final = 2\<rparr> t = Some (t = [97])"
    unfolding check_string_def using d
    by (cases "t = [97]") (simp_all add: s0)
  then show ?thesis by (simp add: h_def)
qed

text \<open>
  C2. A call of \<open>dfs\<close> on a \<open>TerminationState\<close> returns whether the index equals the
  length of the text. Whenever \<open>check_string\<close> returns \<open>True\<close>, there is a run of the
  search from a successor of the start state at index 0 to a \<open>TerminationState\<close> at the
  index that is the length of the text. The graph compiled from the pattern \<open>a\<close> accepts
  the string \<open>a\<close> and no other string; in particular it rejects \<open>ab\<close> and \<open>ba\<close>.
\<close>

theorem full_match_anchor:
  "(\<forall>h a st d s idx. state_at h a = Some st \<and> cls st = TerminationState \<longrightarrow>
        dfs (Suc d) h s a idx = Some (idx = length s)) \<and>
   (\<forall>d fsm s. check_string d fsm s = Some True \<longrightarrow>
        (\<exists>st nxt r. state_at (graph fsm) (start fsm) = Some st \<and> nxt \<in> set (next_states st) \<and>
           run_ok (graph fsm) s ((nxt, 0) # r))) \<and>
   (\<exists>fsm. RegexFSM_init (str ''a'') = Inr fsm \<and>
      (\<forall>t k. check_string (2 + k) fsm t = Some (t = str ''a'')) \<and>
      check_string 2 fsm (str ''ab'') = Some False \<and>
      check_string 2 fsm (str ''ba'') = Some False)"
proof (intro conjI)
  show "\<forall>h a st d s idx. state_at h a = Some st \<and> cls st = TerminationState \<longrightarrow>
        dfs (Suc d) h s a idx = Some (idx = length s)"
    by (auto dest: dfs_termination_state)
  show "\<forall>d fsm s. check_string d fsm s = Some True \<longrightarrow>
        (\<exists>st nxt r. state_at (graph fsm) (start fsm) = Some st \<and> nxt \<in> set (next_states st) \<and>
           run_ok (graph fsm) s ((nxt, 0) # r))"
    using check_string_run by blast
  show "\<exists>fsm. RegexFSM_init (str ''a'') = Inr fsm \<and>
      (\<forall>t k. check_string (2 + k) fsm t = Some (t = str ''a'')) \<and>
      check_string 2 fsm (str ''ab'') = Some False \<and>
      check_string 2 fsm (str ''ba'') = Some False"
    using check_string_a[of 0] check_string_a
    by (simp add: init_a numeral_2_eq_2) (simp add: str_def)
qed

theorem full_match_anchor_witness:
  "\<exists>fsm. RegexFSM_init (str ''a'') = Inr fsm \<and> check_string 2 fsm (str ''a'') = Some True \<and>
     (\<exists>st nxt r. state_at (graph fsm) (start fsm) = Some st \<and> nxt \<in> set (next_states st) \<and>
           run_ok (graph fsm) (str ''a'') ((nxt, 0) # r))"
proof -
  obtain fsm where f: "RegexFSM_init (str ''a'') = Inr fsm"
    and c: "\<forall>t k. check_string (2 + k) fsm t = Some (t = str ''a'')"
    using full_match_anchor by blast
  from c have c2: "check_string 2 fsm (str ''a'') = Some True"
    using spec[OF spec[OF c, of "str ''a''"], of 0] by simp
  with full_match_anchor have "\<exists>st nxt r. state_at (graph fsm) (start fsm) = Some st \<and>
      nxt \<in> set (next_states st) \<and> run_ok (graph fsm) (str ''a'') ((nxt, 0) # r)"
    by blast
  with f c2 show ?thesis by blast
qed

section \<open>Literals never hold a reserved character\<close>

lemma ascii_ok_body:
  assumes "tail_ok \<sigma> \<and> ascii_ok (store \<sigma>)" "body c i \<sigma> = Inr \<sigma>'"
  shows "tail_ok \<sigma>' \<and> ascii_ok (store \<sigma>')"
proof
  from assms show "tail_ok \<sigma>'" by (auto intro: tail_ok_body)
  from assms have t: "tail_ok \<sigma>" and a: "ascii_ok (store \<sigma>)" by simp_all
  show "ascii_ok (store \<sigma>')"
  proof (cases "is_quant c")
    case True
    with assms(2) have q: "quantifier c i \<sigma> = Inr \<sigma>'"
      by (auto simp: body_def is_quant_def)
    note s = quantifier_step[OF t q]
    show ?thesis
      unfolding ascii_ok_def
    proof (intro allI impI)
      fix x sym assume x: "x < length (store \<sigma>')" "cls (store \<sigma>' ! x) = AsciiState sym"
      then have "x < length (store \<sigma>) \<or> x = length (store \<sigma>)" by (auto simp: s(2))
      with x a show "sym < 128 \<and> sym \<noteq> 46 \<and> \<not> is_quant sym"
        by (auto simp: s(5,8) ascii_ok_def split: if_splits)
    qed
  next
    case False
    with assms(2) obtain k where k: "attach k \<sigma> = Inr \<sigma>'"
      "k = DotState \<or> (k = AsciiState c \<and> c < 128 \<and> c \<noteq> 46)"
      by (auto simp: body_def split: if_splits)
    note s = attach_step[OF t k(1)]
    show ?thesis
      unfolding ascii_ok_def
    proof (intro allI impI)
      fix x sym assume x: "x < length (store \<sigma>')" "cls (store \<sigma>' ! x) = AsciiState sym"
      then have "x < length (store \<sigma>) \<or> x = length (store \<sigma>)" by (auto simp: s(1))
      with x a k(2) False show "sym < 128 \<and> sym \<noteq> 46 \<and> \<not> is_quant sym"
        by (auto simp: s(4,6) ascii_ok_def)
    qed
  qed
qed

lemma ascii_ok_init: "ascii_ok (store init_cstate)"
  by (simp add: ascii_ok_def init_cstate_def alloc_def)

lemma ascii_ok_compiled:
  assumes "RegexFSM_init pat = Inr fsm"
  shows "ascii_ok (graph fsm)"
proof -
  from assms obtain \<sigma> where l: "loop pat 0 init_cstate = Inr \<sigma>" and f: "finish \<sigma> = Inr fsm"
    and t: "tail_ok \<sigma>" by (rule init_Inr_loop)
  have "tail_ok \<sigma> \<and> ascii_ok (store \<sigma>)"
  proof (rule loop_invariant[OF l, where P = "\<lambda>\<sigma>. tail_ok \<sigma> \<and> ascii_ok (store \<sigma>)"])
    show "tail_ok init_cstate \<and> ascii_ok (store init_cstate)"
      by (simp add: tail_ok_init ascii_ok_init)
  next
    fix c i \<sigma> \<sigma>'
    assume "tail_ok \<sigma> \<and> ascii_ok (store \<sigma>)" "body c i \<sigma> = Inr \<sigma>'"
    then show "tail_ok \<sigma>' \<and> ascii_ok (store \<sigma>')" by (rule ascii_ok_body)
  qed
  then have a: "ascii_ok (store \<sigma>)" by simp
  note s = finish_step[OF t f]
  show ?thesis
    unfolding ascii_ok_def
  proof (intro allI impI)
    fix x sym assume x: "x < length (graph fsm)" "cls (graph fsm ! x) = AsciiState sym"
    then have "x < length (store \<sigma>) \<or> x = length (store \<sigma>)" by (auto simp: s(1))
    with x a show "sym < 128 \<and> sym \<noteq> 46 \<and> \<not> is_quant sym"
      by (auto simp: s(4,6) ascii_ok_def)
  qed
qed

lemma check_self_reserved:
  assumes "check_self h a c = Some y"
  shows "y \<longrightarrow> ascii_ok h \<longrightarrow> (c = 46 \<or> is_quant c) \<longrightarrow> (\<exists>r. wraps_dot h (a # r))"
proof (rule check_self.raw_induct[where P = "\<lambda>h a c y. y \<longrightarrow> ascii_ok h \<longrightarrow>
         (c = 46 \<or> is_quant c) \<longrightarrow> (\<exists>r. wraps_dot h (a # r))", OF _ assms])
  fix cs :: "heap \<Rightarrow> addr \<Rightarrow> pychar \<Rightarrow> bool option" and h a c y
  assume IH: "\<And>h a c y. cs h a c = Some y \<Longrightarrow>
           y \<longrightarrow> ascii_ok h \<longrightarrow> (c = 46 \<or> is_quant c) \<longrightarrow> (\<exists>r. wraps_dot h (a # r))"
    and eq: "(case state_at h a of None \<Rightarrow> None
      | Some st \<Rightarrow>
          case cls st of DotState \<Rightarrow> Some True
          | AsciiState curr_sym \<Rightarrow> Some (c = curr_sym)
          | StarState inner \<Rightarrow> cs h inner c
          | PlusState inner \<Rightarrow> cs h inner c | _ \<Rightarrow> Some False) = Some y"
  show "y \<longrightarrow> ascii_ok h \<longrightarrow> (c = 46 \<or> is_quant c) \<longrightarrow> (\<exists>r. wraps_dot h (a # r))"
  proof (intro impI)
    assume y: y and ok: "ascii_ok h" and res: "c = 46 \<or> is_quant c"
    from eq obtain st where st: "state_at h a = Some st"
      by (auto split: option.splits)
    then have a: "a < length h" "st = h ! a" by (auto simp: state_at_def split: if_splits)
    show "\<exists>r. wraps_dot h (a # r)"
    proof (cases "cls st")
      case StartState
      with eq st y show ?thesis by simp
    next
      case TerminationState
      with eq st y show ?thesis by simp
    next
      case DotState
      with st have "wraps_dot h [a]" by simp
      then show ?thesis by blast
    next
      case (AsciiState sym)
      with eq st y have "c = sym" by simp
      with ok a AsciiState res show ?thesis by (auto simp: ascii_ok_def)
    next
      case (StarState inner)
      with eq st have "cs h inner c = Some y" by simp
      from IH[OF this] y ok res obtain r where "wraps_dot h (inner # r)" by blast
      with st StarState have "wraps_dot h (a # inner # r)" by simp
      then show ?thesis by blast
    next
      case (PlusState inner)
      with eq st have "cs h inner c = Some y" by simp
      from IH[OF this] y ok res obtain r where "wraps_dot h (inner # r)" by blast
      with st PlusState have "wraps_dot h (a # inner # r)" by simp
      then show ?thesis by blast
    qed
  qed
qed

text \<open>
  C10. In the graph of every pattern that compiles, no \<open>AsciiState\<close> holds one of the
  reserved characters \<open>.\<close>, \<open>*\<close>, \<open>+\<close>; and a state whose \<open>check_self\<close> accepts a
  reserved character is a \<open>DotState\<close>, or a repeat state that reaches a \<open>DotState\<close> through
  its chain of \<open>inner\<close> references.
\<close>

theorem literal_never_reserved:
  assumes "RegexFSM_init pat = Inr fsm"
  shows "(\<forall>a<length (graph fsm). \<forall>sym. cls (graph fsm ! a) = AsciiState sym \<longrightarrow>
            sym \<noteq> 46 \<and> sym \<noteq> 42 \<and> sym \<noteq> 43) \<and>
         (\<forall>a c. (c = 46 \<or> c = 42 \<or> c = 43) \<longrightarrow> check_self (graph fsm) a c = Some True \<longrightarrow>
            (\<exists>r. wraps_dot (graph fsm) (a # r)))"
proof -
  note ok = ascii_ok_compiled[OF assms]
  then have "\<forall>a<length (graph fsm). \<forall>sym. cls (graph fsm ! a) = AsciiState sym \<longrightarrow>
            sym \<noteq> 46 \<and> sym \<noteq> 42 \<and> sym \<noteq> 43"
    by (auto simp: ascii_ok_def is_quant_def)
  moreover have "\<forall>a c. (c = 46 \<or> c = 42 \<or> c = 43) \<longrightarrow> check_self (graph fsm) a c = Some True \<longrightarrow>
            (\<exists>r. wraps_dot (graph fsm) (a # r))"
    using check_self_reserved[of "graph fsm" _ _ True] ok by (auto simp: is_quant_def)
  ultimately show ?thesis by blast
qed

lemma init_dot_star:
  "RegexFSM_init (str ''.*'') =
     Inr \<lparr>graph = [\<lparr>cls = StartState, next_states = [2]\<rparr>,
                   \<lparr>cls = DotState, next_states = [2]\<rparr>,
                   \<lparr>cls = StarState 1, next_states = [1, 3]\<rparr>,
                   \<lparr>cls = TerminationState, next_states = []\<rparr>],
          start = 0, final = 3\<rparr>"
  by (simp add: str_def RegexFSM_init_def init_cstate_def finish_def alloc_def append_next_def
      set_next_def body_def attach_def is_quant_def quantifier_def new_repeat_def rewire_def
      redirect_last_def Let_def)

theorem literal_never_reserved_witness:
  "\<exists>fsm. RegexFSM_init (str ''.*'') = Inr fsm \<and>
     check_self (graph fsm) 2 42 = Some True \<and>
     (\<exists>r. wraps_dot (graph fsm) (2 # r))"
proof -
  let ?g = "[\<lparr>cls = StartState, next_states = [2]\<rparr>,
             \<lparr>cls = DotState, next_states = [2]\<rparr>,
             \<lparr>cls = StarState 1, next_states = [1, 3]\<rparr>,
             \<lparr>cls = TerminationState, next_states = []\<rparr>]"
  have c: "check_self ?g 2 42 = Some True"
    by code_simp
  from literal_never_reserved[OF init_dot_star] c
  have "\<exists>r. wraps_dot ?g (2 # r)" by simp
  with c init_dot_star show ?thesis by simp
qed

section \<open>Plus is matched as star\<close>

lemma as_star_simps:
  "next_states (as_star st) = next_states st"
  "(cls (as_star st) = TerminationState) = (cls st = TerminationState)"
  "is_repeat (as_star st) = is_repeat st"
  "as_star \<lparr>cls = StarState i, next_states = ns\<rparr> = \<lparr>cls = StarState i, next_states = ns\<rparr>"
  "as_star \<lparr>cls = PlusState i, next_states = ns\<rparr> = \<lparr>cls = StarState i, next_states = ns\<rparr>"
  "as_star \<lparr>cls = DotState, next_states = ns\<rparr> = \<lparr>cls = DotState, next_states = ns\<rparr>"
  "as_star \<lparr>cls = AsciiState c, next_states = ns\<rparr> = \<lparr>cls = AsciiState c, next_states = ns\<rparr>"
  "as_star \<lparr>cls = TerminationState, next_states = ns\<rparr> = \<lparr>cls = TerminationState, next_states = ns\<rparr>"
  "as_star \<lparr>cls = StartState, next_states = ns\<rparr> = \<lparr>cls = StartState, next_states = ns\<rparr>"
  "as_star (st\<lparr>next_states := ns\<rparr>) = (as_star st)\<lparr>next_states := ns\<rparr>"
  by (simp_all add: as_star_def is_repeat_def split: state_class.splits)

lemma set_next_map: "set_next a ns (map as_star h) = map as_star (set_next a ns h)"
  by (cases "a < length h") (simp_all add: set_next_def map_update as_star_simps list_update_beyond)

lemma append_next_map: "append_next a b (map as_star h) = map as_star (append_next a b h)"
  by (cases "a < length h")
     (simp_all add: append_next_def set_next_map as_star_simps, simp add: set_next_def list_update_beyond)

lemma rewire_map: "rewire p inner node (map as_star h) = map as_star (rewire p inner node h)"
proof (cases p)
  case None
  show ?thesis
    by (cases "0 < length h")
       (simp_all add: rewire_def None set_next_map as_star_simps, simp add: set_next_def)
next
  case (Some x)
  show ?thesis
    by (cases "x < length h")
       (simp_all add: rewire_def Some set_next_map as_star_simps, simp add: set_next_def list_update_beyond)
qed

lemma attach_map:
  assumes "k = DotState \<or> k = AsciiState c"
  shows "attach k (star_cstate \<sigma>) = map_sum star_error star_cstate (attach k \<sigma>)"
  using assms
  by (auto simp: attach_def alloc_def star_cstate_def Let_def append_next_map[symmetric] as_star_simps)

lemma quantifier_map:
  assumes "is_quant c"
  shows "quantifier (star_char c) i (star_cstate \<sigma>) =
           map_sum star_error star_cstate (quantifier c i \<sigma>)"
  using assms
  by (auto simp: quantifier_def new_repeat_def alloc_def star_cstate_def Let_def star_char_def
      is_quant_def rewire_map[symmetric] set_next_map[symmetric] append_next_map[symmetric]
      as_star_simps)

lemma body_map:
  "body (star_char c) i (star_cstate \<sigma>) = map_sum star_error star_cstate (body c i \<sigma>)"
proof (cases "is_quant c")
  case True
  then have "body c i \<sigma> = quantifier c i \<sigma>"
    "body (star_char c) i (star_cstate \<sigma>) = quantifier (star_char c) i (star_cstate \<sigma>)"
    by (auto simp: body_def is_quant_def star_char_def)
  with quantifier_map[OF True] show ?thesis by simp
next
  case False
  then have sc: "star_char c = c" by (simp add: star_char_def is_quant_def)
  from False show ?thesis
    unfolding sc by (auto simp: body_def attach_map)
qed

lemma loop_map:
  "loop (map star_char cs) i (star_cstate \<sigma>) = map_sum star_error star_cstate (loop cs i \<sigma>)"
proof (induction cs arbitrary: i \<sigma>)
  case Nil
  then show ?case by simp
next
  case (Cons c cs)
  show ?case
    by (cases "body c i \<sigma>") (simp_all add: body_map Cons.IH)
qed

lemma finish_map: "finish (star_cstate \<sigma>) = map_sum star_error star_fsm (finish \<sigma>)"
  by (auto simp: finish_def alloc_def star_cstate_def star_fsm_def Let_def
      append_next_map[symmetric] as_star_simps)

lemma init_map:
  "RegexFSM_init (map star_char pat) = map_sum star_error star_fsm (RegexFSM_init pat)"
proof -
  have i: "star_cstate init_cstate = init_cstate"
    by (simp add: star_cstate_def init_cstate_def alloc_def as_star_simps)
  show ?thesis
    unfolding RegexFSM_init_def using loop_map[of pat 0 init_cstate]
    by (cases "loop pat 0 init_cstate") (simp_all add: i finish_map)
qed

lemma state_at_map: "state_at (map as_star h) a = map_option as_star (state_at h a)"
  by (simp add: state_at_def)


lemma cls_as_star_cases:
  "cls (as_star st) = (case cls st of PlusState inner \<Rightarrow> StarState inner | k \<Rightarrow> k)"
  by (simp add: as_star_def)

lemma check_self_map_1:
  assumes "check_self h a c = Some y"
  shows "check_self (map as_star h) a c = Some y"
proof (rule check_self.raw_induct[where P = "\<lambda>h a c y. check_self (map as_star h) a c = Some y",
      OF _ assms])
  fix cs :: "heap \<Rightarrow> addr \<Rightarrow> pychar \<Rightarrow> bool option" and h a c y
  assume IH: "\<And>h a c y. cs h a c = Some y \<Longrightarrow> check_self (map as_star h) a c = Some y"
    and eq: "(case state_at h a of None \<Rightarrow> None
      | Some st \<Rightarrow>
          case cls st of DotState \<Rightarrow> Some True
          | AsciiState curr_sym \<Rightarrow> Some (c = curr_sym)
          | StarState inner \<Rightarrow> cs h inner c
          | PlusState inner \<Rightarrow> cs h inner c | _ \<Rightarrow> Some False) = Some y"
  from eq obtain st where st: "state_at h a = Some st"
    by (auto split: option.splits)
  show "check_self (map as_star h) a c = Some y"
  proof (cases "cls st")
    case (StarState inner)
    with eq st have "cs h inner c = Some y" by simp
    from IH[OF this] st StarState show ?thesis
      by (subst check_self.simps) (simp add: state_at_map cls_as_star_cases)
  next
    case (PlusState inner)
    with eq st have "cs h inner c = Some y" by simp
    from IH[OF this] st PlusState show ?thesis
      by (subst check_self.simps) (simp add: state_at_map cls_as_star_cases)
  qed (use eq st in \<open>subst check_self.simps, simp add: state_at_map cls_as_star_cases\<close>)+
qed

lemma check_self_map_2:
  assumes "check_self h' a c = Some y"
  shows "\<forall>h. h' = map as_star h \<longrightarrow> check_self h a c = Some y"
proof (rule check_self.raw_induct[where P = "\<lambda>h' a c y. \<forall>h. h' = map as_star h \<longrightarrow>
         check_self h a c = Some y", OF _ assms])
  fix cs :: "heap \<Rightarrow> addr \<Rightarrow> pychar \<Rightarrow> bool option" and h' a c y
  assume IH: "\<And>h' a c y. cs h' a c = Some y \<Longrightarrow>
            \<forall>h. h' = map as_star h \<longrightarrow> check_self h a c = Some y"
    and eq: "(case state_at h' a of None \<Rightarrow> None
      | Some st \<Rightarrow>
          case cls st of DotState \<Rightarrow> Some True
          | AsciiState curr_sym \<Rightarrow> Some (c = curr_sym)
          | StarState inner \<Rightarrow> cs h' inner c
          | PlusState inner \<Rightarrow> cs h' inner c | _ \<Rightarrow> Some False) = Some y"
  show "\<forall>h. h' = map as_star h \<longrightarrow> check_self h a c = Some y"
  proof (intro allI impI)
    fix h assume h: "h' = map as_star h"
    from eq h obtain st where st: "state_at h a = Some st"
      by (auto simp: state_at_map split: option.splits)
    show "check_self h a c = Some y"
    proof (cases "cls st")
      case (StarState inner)
      with eq st h have "cs h' inner c = Some y"
        by (simp add: state_at_map cls_as_star_cases)
      from IH[OF this] h st StarState show ?thesis
        by (subst check_self.simps) simp
    next
      case (PlusState inner)
      with eq st h have "cs h' inner c = Some y"
        by (simp add: state_at_map cls_as_star_cases)
      from IH[OF this] h st PlusState show ?thesis
        by (subst check_self.simps) simp
    qed (use eq st h in \<open>subst check_self.simps, simp add: state_at_map cls_as_star_cases\<close>)+
  qed
qed

lemma check_self_map: "check_self (map as_star h) a c = check_self h a c"
proof (cases "check_self h a c")
  case (Some y)
  then show ?thesis by (simp add: check_self_map_1)
next
  case None
  show ?thesis
  proof (cases "check_self (map as_star h) a c")
    case (Some y)
    from check_self_map_2[OF this] None show ?thesis by simp
  qed (simp add: None)
qed

lemma dfs_map: "dfs d (map as_star h) s a i = dfs d h s a i"
proof (induction d arbitrary: a i)
  case 0
  then show ?case by simp
next
  case (Suc d)
  show ?case
    by (cases "state_at h a")
       (simp_all add: state_at_map check_self_map as_star_simps Suc.IH
          split: option.splits bool.splits)
qed

lemma check_string_map: "check_string d (star_fsm fsm) s = check_string d fsm s"
  by (cases "state_at (graph fsm) (start fsm)")
     (simp_all add: check_string_def star_fsm_def state_at_map dfs_map as_star_simps)

lemma first_true_False:
  "first_true f xs = Some False \<Longrightarrow> \<forall>x\<in>set xs. f x = Some False"
  by (induction xs) (auto split: option.splits bool.splits)

lemma dfs_complete:
  "run_ok h s ((a, i) # r) \<Longrightarrow> dfs d h s a i = Some b \<Longrightarrow> b"
proof (induction d arbitrary: a i r b)
  case 0
  then show ?case by simp
next
  case (Suc d)
  from Suc.prems(2) obtain st where st: "state_at h a = Some st"
    by (auto split: option.splits)
  show ?case
  proof (cases r)
    case Nil
    with Suc.prems st show ?thesis by simp
  next
    case (Cons q r')
    obtain n j where q: "q = (n, j)" by (cases q)
    from Suc.prems(1) st have nt: "cls st \<noteq> TerminationState"
      and n: "n \<in> set (next_states st)"
      and mv: "(j = i + 1 \<and> i < length s \<and> check_self h a (s ! i) = Some True) \<or>
               (j = i \<and> is_repeat st)"
      and rest: "run_ok h s ((n, j) # r')"
      by (simp_all add: Cons q)
    let ?C = "if i < length s
              then (case check_self h a (s ! i) of
                      None \<Rightarrow> None
                    | Some True \<Rightarrow> first_true (\<lambda>nxt. dfs d h s nxt (i + 1)) (next_states st)
                    | Some False \<Rightarrow> Some False)
              else Some False"
    have eq: "(case ?C of
                 None \<Rightarrow> None
               | Some True \<Rightarrow> Some True
               | Some False \<Rightarrow>
                   if is_repeat st
                   then first_true (\<lambda>nxt. dfs d h s nxt i) (next_states st)
                   else Some False) = Some b"
      using Suc.prems(2) st nt by (simp only: dfs.simps option.case if_False)
    then obtain cv where cv: "?C = Some cv" by (cases ?C) simp_all
    show ?thesis
    proof (cases cv)
      case True
      with eq cv show ?thesis by simp
    next
      case False
      from mv show ?thesis
      proof
        assume c: "j = i + 1 \<and> i < length s \<and> check_self h a (s ! i) = Some True"
        with cv False have "first_true (\<lambda>nxt. dfs d h s nxt (i + 1)) (next_states st) = Some False"
          by simp
        from first_true_False[OF this] n have "dfs d h s n (i + 1) = Some False" by blast
        with Suc.IH[of n "i + 1" r' False] rest c show ?thesis by simp
      next
        assume k: "j = i \<and> is_repeat st"
        with eq cv False have f: "first_true (\<lambda>nxt. dfs d h s nxt i) (next_states st) = Some b"
          by simp
        show ?thesis
        proof (rule ccontr)
          assume "\<not> b"
          with f have "first_true (\<lambda>nxt. dfs d h s nxt i) (next_states st) = Some False" by simp
          from first_true_False[OF this] n have "dfs d h s n i = Some False" by blast
          with Suc.IH[of n i r' False] rest k show False by simp
        qed
      qed
    qed
  qed
qed

lemma check_string_complete:
  assumes "check_string d fsm s = Some b" "state_at (graph fsm) (start fsm) = Some st"
    "nxt \<in> set (next_states st)" "run_ok (graph fsm) s ((nxt, 0) # r)"
  shows b
proof (rule ccontr)
  assume "\<not> b"
  with assms(1,2) have "first_true (\<lambda>nxt. dfs d (graph fsm) s nxt 0) (next_states st) = Some False"
    by (simp add: check_string_def)
  from first_true_False[OF this] assms(3) have "dfs d (graph fsm) s nxt 0 = Some False" by blast
  from dfs_complete[OF assms(4) this] show False by simp
qed

lemma check_string_runs:
  assumes "check_string d fsm s = Some b"
  shows "b = (\<exists>st nxt r. state_at (graph fsm) (start fsm) = Some st \<and>
               nxt \<in> set (next_states st) \<and> run_ok (graph fsm) s ((nxt, 0) # r))"
proof (cases b)
  case True
  with assms check_string_run[of d fsm s] show ?thesis by simp
next
  case False
  with assms check_string_complete[of d fsm s b] show ?thesis by blast
qed

lemma skip_step:
  assumes "state_at h a = Some st" "cls st = StarState x \<or> cls st = PlusState x"
    "n \<in> set (next_states st)"
  shows "step_ok h s (a, i) (n, i)"
  using assms by (auto simp: is_repeat_def)

lemma run_a_plus_empty: "run_test 3 (str ''a+'') [] = Inr (Some True)"
  by code_simp

lemma run_a_star_empty: "run_test 3 (str ''a*'') [] = Inr (Some True)"
  by code_simp

lemma run_a_plus_b: "run_test 4 (str ''a+b'') (str ''b'') = Inr (Some True)"
  by code_simp

lemma run_a_star_b: "run_test 4 (str ''a*b'') (str ''b'') = Inr (Some True)"
  by code_simp

lemma run_a_plus_b_a: "run_test 4 (str ''a+b'') (str ''a'') = Inr (Some False)"
  by code_simp

lemma plus_star_agree:
  "(\<exists>f1 f2. RegexFSM_init (p @ 43 # q) = Inr f1 \<and> RegexFSM_init (p @ 42 # q) = Inr f2 \<and>
       (\<forall>d s. check_string d f1 s = check_string d f2 s)) \<or>
    (\<exists>e1 e2. RegexFSM_init (p @ 43 # q) = Inl e1 \<and> RegexFSM_init (p @ 42 # q) = Inl e2)"
proof -
  have "map star_char (p @ 43 # q) = map star_char (p @ 42 # q)"
    by (simp add: star_char_def)
  then have eq: "map_sum star_error star_fsm (RegexFSM_init (p @ 43 # q)) =
                 map_sum star_error star_fsm (RegexFSM_init (p @ 42 # q))"
    by (simp only: init_map[symmetric])
  show ?thesis
  proof (cases "RegexFSM_init (p @ 43 # q)")
    case (Inl e1)
    with eq obtain e2 where "RegexFSM_init (p @ 42 # q) = Inl e2"
      by (cases "RegexFSM_init (p @ 42 # q)") auto
    with Inl show ?thesis by blast
  next
    case (Inr f1)
    with eq obtain f2 where f2: "RegexFSM_init (p @ 42 # q) = Inr f2" "star_fsm f1 = star_fsm f2"
      by (cases "RegexFSM_init (p @ 42 # q)") auto
    have "check_string d f1 s = check_string d f2 s" for d s
      using check_string_map[of d f1 s] check_string_map[of d f2 s] f2(2) by simp
    with Inr f2(1) show ?thesis by blast
  qed
qed

text \<open>
  C4. The search does not tell \<open>PlusState\<close> from \<open>StarState\<close>. From a state of either
  class, and at any index, the move to any outgoing transition at the same index, without
  consuming a character, is a step of a run. Whenever \<open>check_string\<close> returns, it returns
  \<open>True\<close> exactly when such a run leads from a successor of the start state at index 0
  to a \<open>TerminationState\<close> at the end of the text; so the search does take these steps,
  in the middle of the text as at its end. Two patterns that differ in one quantifier
  character, \<open>+\<close> in the one and \<open>*\<close> in the other, either both fail to compile or
  compile to graphs on which \<open>check_string\<close> gives the same result for every string at
  every recursion depth. In particular the graph of \<open>a+\<close> accepts the empty string, as
  that of \<open>a*\<close> does, and the graphs of \<open>a+b\<close> and \<open>a*b\<close> accept \<open>b\<close>, while that of
  \<open>a+b\<close> rejects \<open>a\<close>.
\<close>

theorem plus_same_as_star:
  "(\<forall>h s a i st x n. state_at h a = Some st \<and> (cls st = StarState x \<or> cls st = PlusState x) \<and>
       n \<in> set (next_states st) \<longrightarrow> step_ok h s (a, i) (n, i)) \<and>
   (\<forall>d fsm s b. check_string d fsm s = Some b \<longrightarrow>
       b = (\<exists>st nxt r. state_at (graph fsm) (start fsm) = Some st \<and>
              nxt \<in> set (next_states st) \<and> run_ok (graph fsm) s ((nxt, 0) # r))) \<and>
   (\<forall>p q. (\<exists>f1 f2. RegexFSM_init (p @ 43 # q) = Inr f1 \<and> RegexFSM_init (p @ 42 # q) = Inr f2 \<and>
              (\<forall>d s. check_string d f1 s = check_string d f2 s)) \<or>
           (\<exists>e1 e2. RegexFSM_init (p @ 43 # q) = Inl e1 \<and>
              RegexFSM_init (p @ 42 # q) = Inl e2)) \<and>
   (\<forall>k. run_test (3 + k) (str ''a+'') [] = Inr (Some True) \<and>
        run_test (3 + k) (str ''a*'') [] = Inr (Some True) \<and>
        run_test (4 + k) (str ''a+b'') (str ''b'') = Inr (Some True) \<and>
        run_test (4 + k) (str ''a*b'') (str ''b'') = Inr (Some True) \<and>
        run_test (4 + k) (str ''a+b'') (str ''a'') = Inr (Some False))"
proof (intro conjI)
  show "\<forall>h s a i st x n. state_at h a = Some st \<and> (cls st = StarState x \<or> cls st = PlusState x) \<and>
       n \<in> set (next_states st) \<longrightarrow> step_ok h s (a, i) (n, i)"
    using skip_step by blast
  show "\<forall>d fsm s b. check_string d fsm s = Some b \<longrightarrow>
       b = (\<exists>st nxt r. state_at (graph fsm) (start fsm) = Some st \<and>
              nxt \<in> set (next_states st) \<and> run_ok (graph fsm) s ((nxt, 0) # r))"
    using check_string_runs by blast
  show "\<forall>p q. (\<exists>f1 f2. RegexFSM_init (p @ 43 # q) = Inr f1 \<and> RegexFSM_init (p @ 42 # q) = Inr f2 \<and>
              (\<forall>d s. check_string d f1 s = check_string d f2 s)) \<or>
           (\<exists>e1 e2. RegexFSM_init (p @ 43 # q) = Inl e1 \<and>
              RegexFSM_init (p @ 42 # q) = Inl e2)"
    using plus_star_agree by blast
  show "\<forall>k. run_test (3 + k) (str ''a+'') [] = Inr (Some True) \<and>
        run_test (3 + k) (str ''a*'') [] = Inr (Some True) \<and>
        run_test (4 + k) (str ''a+b'') (str ''b'') = Inr (Some True) \<and>
        run_test (4 + k) (str ''a*b'') (str ''b'') = Inr (Some True) \<and>
        run_test (4 + k) (str ''a+b'') (str ''a'') = Inr (Some False)"
    by (intro allI conjI run_test_mono run_a_plus_empty run_a_star_empty run_a_plus_b
        run_a_star_b run_a_plus_b_a)
qed

lemma run_test_Inr:
  "run_test d p s = Inr v \<Longrightarrow> \<exists>fsm. RegexFSM_init p = Inr fsm \<and> check_string d fsm s = v"
  by (auto simp: run_test_def split: sum.splits)

theorem plus_same_as_star_witness:
  "\<exists>fsm st. RegexFSM_init (str ''a+b'') = Inr fsm \<and>
     check_string 4 fsm (str ''b'') = Some True \<and>
     (\<exists>st nxt r. state_at (graph fsm) (start fsm) = Some st \<and>
        nxt \<in> set (next_states st) \<and> run_ok (graph fsm) (str ''b'') ((nxt, 0) # r)) \<and>
     state_at (graph fsm) 2 = Some st \<and> cls st = PlusState 1 \<and> 3 \<in> set (next_states st) \<and>
     step_ok (graph fsm) (str ''b'') (2, 0) (3, 0)"
proof -
  let ?g = "[\<lparr>cls = StartState, next_states = [2]\<rparr>,
             \<lparr>cls = AsciiState 97, next_states = [2]\<rparr>,
             \<lparr>cls = PlusState 1, next_states = [1, 3]\<rparr>,
             \<lparr>cls = AsciiState 98, next_states = [4]\<rparr>,
             \<lparr>cls = TerminationState, next_states = []\<rparr>]"
  let ?f = "\<lparr>graph = ?g, start = 0, final = 4\<rparr>"
  have i: "RegexFSM_init (str ''a+b'') = Inr ?f"
    by (simp add: str_def RegexFSM_init_def init_cstate_def finish_def alloc_def append_next_def
      set_next_def body_def attach_def is_quant_def quantifier_def new_repeat_def rewire_def
      redirect_last_def Let_def)
  have c: "check_string 4 ?f (str ''b'') = Some True"
    using run_a_plus_b by (simp add: run_test_def i)
  have s2: "state_at ?g 2 = Some \<lparr>cls = PlusState 1, next_states = [1, 3]\<rparr>"
    by (simp add: state_at_def)
  from plus_same_as_star c
  have r: "\<exists>st nxt r. state_at (graph ?f) (start ?f) = Some st \<and>
        nxt \<in> set (next_states st) \<and> run_ok (graph ?f) (str ''b'') ((nxt, 0) # r)"
    by blast
  from plus_same_as_star
  have "state_at ?g 2 = Some \<lparr>cls = PlusState 1, next_states = [1, 3]\<rparr> \<and>
        (cls \<lparr>cls = PlusState 1, next_states = [1, 3]\<rparr> = StarState 1 \<or>
         cls \<lparr>cls = PlusState 1, next_states = [1, 3]\<rparr> = PlusState 1) \<and>
        3 \<in> set (next_states \<lparr>cls = PlusState 1, next_states = [1, 3]\<rparr>) \<longrightarrow>
        step_ok ?g (str ''b'') (2, 0) (3, 0)"
    by blast
  with s2 have k: "step_ok ?g (str ''b'') (2, 0) (3, 0)" by simp
  from i c r s2 k show ?thesis
    by (intro exI[where x = ?f] exI[where x = "\<lparr>cls = PlusState 1, next_states = [1, 3]\<rparr>"]) simp
qed

section \<open>Termination of the search\<close>

























lemma init_a_star:
  "RegexFSM_init (str ''a*'') =
     Inr \<lparr>graph = [\<lparr>cls = StartState, next_states = [2]\<rparr>,
                   \<lparr>cls = AsciiState 97, next_states = [2]\<rparr>,
                   \<lparr>cls = StarState 1, next_states = [1, 3]\<rparr>,
                   \<lparr>cls = TerminationState, next_states = []\<rparr>],
          start = 0, final = 3\<rparr>"
  by (simp add: str_def RegexFSM_init_def init_cstate_def finish_def alloc_def append_next_def
      set_next_def body_def attach_def is_quant_def quantifier_def new_repeat_def rewire_def
      redirect_last_def Let_def)






section \<open>The search only reads the graph\<close>

lemma first_true_st_pure:
  assumes "\<And>x. x \<in> set xs \<Longrightarrow> f x h = map_option (\<lambda>b. (b, h)) (g x)"
  shows "first_true_st f xs h = map_option (\<lambda>b. (b, h)) (first_true g xs)"
  using assms
proof (induction xs)
  case Nil
  then show ?case by simp
next
  case (Cons x xs)
  have x: "f x h = map_option (\<lambda>b. (b, h)) (g x)" by (rule Cons.prems) simp
  have r: "first_true_st f xs h = map_option (\<lambda>b. (b, h)) (first_true g xs)"
    by (rule Cons.IH) (simp add: Cons.prems)
  show ?case
  proof (cases "g x")
    case None
    with x show ?thesis by simp
  next
    case (Some b)
    with x r show ?thesis by (cases b) simp_all
  qed
qed

lemma dfs_st_pure: "dfs_st d s a i h = map_option (\<lambda>b. (b, h)) (dfs d h s a i)"
proof (induction d arbitrary: a i)
  case 0
  then show ?case by simp
next
  case (Suc d)
  have loop: "first_true_st (\<lambda>nxt. dfs_st d s nxt j) ns h =
      map_option (\<lambda>b. (b, h)) (first_true (\<lambda>nxt. dfs d h s nxt j) ns)" for j ns
    by (rule first_true_st_pure) (rule Suc.IH)
  show ?case
  proof (cases "state_at h a")
    case None
    then show ?thesis by simp
  next
    case (Some st)
    show ?thesis
    proof (cases "cls st = TerminationState")
      case True
      with Some show ?thesis by simp
    next
      case False
      let ?c = "if i < length s
                then (case check_self h a (s ! i) of
                        None \<Rightarrow> None
                      | Some True \<Rightarrow> first_true (\<lambda>nxt. dfs d h s nxt (i + 1)) (next_states st)
                      | Some False \<Rightarrow> Some False)
                else Some False"
      have c: "(if i < length s
                then (case check_self h a (s ! i) of
                        None \<Rightarrow> None
                      | Some True \<Rightarrow>
                          first_true_st (\<lambda>nxt. dfs_st d s nxt (i + 1)) (next_states st) h
                      | Some False \<Rightarrow> Some (False, h))
                else Some (False, h)) = map_option (\<lambda>b. (b, h)) ?c"
        by (simp add: loop split: option.splits bool.splits)
      have l: "dfs_st (Suc d) s a i h =
           (case map_option (\<lambda>b. (b, h)) ?c of
               None \<Rightarrow> None
             | Some (True, h1) \<Rightarrow> Some (True, h1)
             | Some (False, h1) \<Rightarrow>
                 (case state_at h1 a of
                    None \<Rightarrow> None
                  | Some st1 \<Rightarrow>
                      if is_repeat st1
                      then first_true_st (\<lambda>nxt. dfs_st d s nxt i) (next_states st1) h1
                      else Some (False, h1)))"
        using Some False by (simp only: dfs_st.simps c[symmetric] option.case if_False)
      have r: "dfs (Suc d) h s a i =
           (case ?c of
               None \<Rightarrow> None
             | Some True \<Rightarrow> Some True
             | Some False \<Rightarrow>
                 if is_repeat st
                 then first_true (\<lambda>nxt. dfs d h s nxt i) (next_states st)
                 else Some False)"
        using Some False by (simp only: dfs.simps option.case if_False)
      show ?thesis
        unfolding l r
        by (cases ?c) (auto simp: Some loop split: bool.splits)
    qed
  qed
qed

lemma check_string_st_pure:
  "check_string_st d s fsm = map_option (\<lambda>b. (b, fsm)) (check_string d fsm s)"
proof (cases "state_at (graph fsm) (start fsm)")
  case None
  then show ?thesis by (simp add: check_string_st_def check_string_def)
next
  case (Some st)
  have "first_true_st (\<lambda>nxt. dfs_st d s nxt 0) (next_states st) (graph fsm) =
      map_option (\<lambda>b. (b, graph fsm)) (first_true (\<lambda>nxt. dfs d (graph fsm) s nxt 0) (next_states st))"
    by (rule first_true_st_pure) (rule dfs_st_pure)
  with Some show ?thesis
    by (cases "first_true (\<lambda>nxt. dfs d (graph fsm) s nxt 0) (next_states st)")
       (simp_all add: check_string_st_def check_string_def)
qed

text \<open>
  C9. \<open>check_string\<close> leaves the compiled graph as it was: written with the store passed
  through every call, the search returns the result of the search that only reads the
  graph, together with the very automaton it was given (every transition list, every
  stored symbol and every \<open>inner\<close> reference included).
\<close>

theorem check_string_read_only:
  "check_string_st depth s fsm = map_option (\<lambda>b. (b, fsm)) (check_string depth fsm s) \<and>
   (\<forall>b fsm'. check_string_st depth s fsm = Some (b, fsm') \<longrightarrow>
      fsm' = fsm \<and> check_string depth fsm s = Some b)"
  by (auto simp: check_string_st_pure)

theorem check_string_read_only_witness:
  "\<exists>fsm. RegexFSM_init (str ''a*'') = Inr fsm \<and>
     check_string_st 5 (str ''aa'') fsm = Some (True, fsm) \<and>
     check_string 5 fsm (str ''aa'') = Some True"
proof -
  let ?f = "\<lparr>graph = [\<lparr>cls = StartState, next_states = [2]\<rparr>,
                   \<lparr>cls = AsciiState 97, next_states = [2]\<rparr>,
                   \<lparr>cls = StarState 1, next_states = [1, 3]\<rparr>,
                   \<lparr>cls = TerminationState, next_states = []\<rparr>],
          start = 0, final = 3\<rparr>"
  have "map_option fst (check_string_st 5 (str ''aa'') ?f) = Some True"
    by code_simp
  then obtain f' where r: "check_string_st 5 (str ''aa'') ?f = Some (True, f')" by auto
  with check_string_read_only[of 5 "str ''aa''" ?f]
  have "f' = ?f \<and> check_string 5 ?f (str ''aa'') = Some True" by blast
  with r init_a_star show ?thesis by simp
qed

end
